theory Spec2Isabelle
  imports Complex_Main "HOL-Library.Word"
begin

section \<open>The ordered free-region list (SemeruHeapRegionSet.cpp)\<close>

text \<open>
  A \<open>FreeSemeruRegionList\<close> links \<open>SemeruHeapRegion\<close> objects through their
  \<open>next\<close> and \<open>prev\<close> pointers. The regions live in a store that maps a region
  address to the region's fields; a pointer is \<open>None\<close> for \<open>NULL\<close>. The model
  follows the product build: \<open>verify_optional\<close>, \<open>check_mt_safety\<close> with no
  checker and the \<open>#ifdef ASSERT\<close> block of \<open>add_ordered\<close> compile to nothing.
\<close>

type_synonym region_ref = nat

record SemeruHeapRegion =
  hrm_index :: nat
  hr_next :: "region_ref option"
  hr_prev :: "region_ref option"

type_synonym region_store = "region_ref \<Rightarrow> SemeruHeapRegion"

record FreeSemeruRegionList =
  rl_length :: nat
  rl_head :: "region_ref option"
  rl_tail :: "region_ref option"
  rl_last :: "region_ref option"

text \<open>
  What a call can end in: it returns, it dereferences \<open>NULL\<close>, or the walk uses up
  the loop budget it was given (one unit per loop iteration).
\<close>

datatype 'a outcome = Returns 'a | NullDereference | OutOfFuel

definition set_next :: "region_store \<Rightarrow> region_ref \<Rightarrow> region_ref option \<Rightarrow> region_store" where
  "set_next h r n = h(r := (h r)\<lparr>hr_next := n\<rparr>)"

definition set_prev :: "region_store \<Rightarrow> region_ref \<Rightarrow> region_ref option \<Rightarrow> region_store" where
  "set_prev h r p = h(r := (h r)\<lparr>hr_prev := p\<rparr>)"

definition rl_is_empty :: "FreeSemeruRegionList \<Rightarrow> bool" where
  "rl_is_empty l = (rl_length l = 0)"

definition rl_clear :: "FreeSemeruRegionList \<Rightarrow> FreeSemeruRegionList" where
  "rl_clear l = l\<lparr>rl_length := 0, rl_head := None, rl_tail := None, rl_last := None\<rparr>"

text \<open>
  The inner loop of \<open>add_ordered\<close>:
  \<^verbatim>\<open>while (curr_to != NULL && curr_to->hrm_index() < curr_from->hrm_index())
    curr_to = curr_to->next();\<close>
  It returns the budget that is left and the new \<open>curr_to\<close>.
\<close>

fun advance_curr_to ::
  "nat \<Rightarrow> region_store \<Rightarrow> region_ref option \<Rightarrow> region_ref \<Rightarrow> (nat \<times> region_ref option) option"
where
  "advance_curr_to fuel h None f = Some (fuel, None)"
| "advance_curr_to 0 h (Some t) f =
     (if hrm_index (h t) < hrm_index (h f) then None else Some (0, Some t))"
| "advance_curr_to (Suc k) h (Some t) f =
     (if hrm_index (h t) < hrm_index (h f) then advance_curr_to k h (hr_next (h t)) f
      else Some (Suc k, Some t))"

text \<open>
  One pass of the outer loop body, for a non-\<open>NULL\<close> \<open>curr_from\<close> and the
  \<open>curr_to\<close> the inner loop stopped at. It returns the store, the list header and the
  next \<open>curr_from\<close>.
\<close>

definition link_from ::
  "region_store \<Rightarrow> FreeSemeruRegionList \<Rightarrow> region_ref option \<Rightarrow> region_ref \<Rightarrow>
   (region_store \<times> FreeSemeruRegionList \<times> region_ref option) outcome"
where
  "link_from h l curr_to curr_from =
     (case curr_to of
        None \<Rightarrow>
          (case rl_tail l of
             None \<Rightarrow> NullDereference
           | Some tail \<Rightarrow>
               let h1 = set_next h tail (Some curr_from);
                   h2 = set_prev h1 curr_from (rl_tail l)
               in Returns (h2, l, None))
      | Some t \<Rightarrow>
          let next_from = hr_next (h curr_from);
              h1 = set_next h curr_from (Some t);
              h2 = set_prev h1 curr_from (hr_prev (h1 t));
              hl = (case hr_prev (h2 t) of
                      None \<Rightarrow> (h2, l\<lparr>rl_head := Some curr_from\<rparr>)
                    | Some p \<Rightarrow> (set_next h2 p (Some curr_from), l));
              h4 = set_prev (fst hl) t (Some curr_from)
          in Returns (h4, snd hl, next_from))"

text \<open>The outer loop \<^verbatim>\<open>while (curr_from != NULL) { ... }\<close>.\<close>

lemma advance_curr_to_fuel:
  "advance_curr_to fuel h curr_to f = Some (fuel', curr_to') \<Longrightarrow> fuel' \<le> fuel"
  by (induction fuel h curr_to f rule: advance_curr_to.induct) (auto split: if_splits)

function merge_loop ::
  "nat \<Rightarrow> region_store \<Rightarrow> FreeSemeruRegionList \<Rightarrow> region_ref option \<Rightarrow> region_ref option \<Rightarrow>
   (region_store \<times> FreeSemeruRegionList) outcome"
where
  "merge_loop fuel h l curr_to None = Returns (h, l)"
| "merge_loop 0 h l curr_to (Some f) = OutOfFuel"
| "merge_loop (Suc k) h l curr_to (Some f) =
     (case advance_curr_to k h curr_to f of
        None \<Rightarrow> OutOfFuel
      | Some (k', curr_to') \<Rightarrow>
          (case link_from h l curr_to' f of
             Returns (h', l', curr_from') \<Rightarrow> merge_loop k' h' l' curr_to' curr_from'
           | NullDereference \<Rightarrow> NullDereference
           | OutOfFuel \<Rightarrow> OutOfFuel))"
  by pat_completeness auto
termination
  by (relation "measure (\<lambda>(fuel, h, l, curr_to, curr_from). fuel)")
     (auto dest!: advance_curr_to_fuel)

text \<open>
  \<open>FreeSemeruRegionList::add_ordered(FreeSemeruRegionList* from_list)\<close>. The budget
  \<open>fuel\<close> bounds the iterations of the two loops together: each outer iteration and
  each inner iteration takes one unit. The result is the store, this list and
  \<open>from_list\<close>.
\<close>

definition add_ordered ::
  "nat \<Rightarrow> region_store \<Rightarrow> FreeSemeruRegionList \<Rightarrow> FreeSemeruRegionList \<Rightarrow>
   (region_store \<times> FreeSemeruRegionList \<times> FreeSemeruRegionList) outcome"
where
  "add_ordered fuel h this from_list =
     (if rl_is_empty from_list then Returns (h, this, from_list)
      else
        (case
           (if rl_is_empty this then
              Returns (h, this\<lparr>rl_head := rl_head from_list, rl_tail := rl_tail from_list\<rparr>)
            else
              (case merge_loop fuel h this (rl_head this) (rl_head from_list) of
                 Returns (h', l') \<Rightarrow>
                   (case (rl_tail l', rl_tail from_list) of
                      (Some t, Some ft) \<Rightarrow>
                        Returns (h', if hrm_index (h' t) < hrm_index (h' ft)
                                     then l'\<lparr>rl_tail := rl_tail from_list\<rparr> else l')
                    | _ \<Rightarrow> NullDereference)
               | NullDereference \<Rightarrow> NullDereference
               | OutOfFuel \<Rightarrow> OutOfFuel))
         of
           Returns (h', l') \<Rightarrow>
             Returns (h', l'\<lparr>rl_length := rl_length l' + rl_length from_list\<rparr>, rl_clear from_list)
         | NullDereference \<Rightarrow> NullDereference
         | OutOfFuel \<Rightarrow> OutOfFuel))"

text \<open>
  The shape \<open>verify_list\<close> checks. \<open>dll_seg h pv rs nx\<close>: the regions \<open>rs\<close> are
  linked in this order, the first one's \<open>prev\<close> being \<open>pv\<close> and the last one's
  \<open>next\<close> being \<open>nx\<close>.
\<close>

definition first_of :: "region_ref list \<Rightarrow> region_ref option \<Rightarrow> region_ref option" where
  "first_of rs d = (case rs of [] \<Rightarrow> d | r # rest \<Rightarrow> Some r)"

definition last_of :: "region_ref list \<Rightarrow> region_ref option \<Rightarrow> region_ref option" where
  "last_of rs d = (if rs = [] then d else Some (last rs))"

fun dll_seg ::
  "region_store \<Rightarrow> region_ref option \<Rightarrow> region_ref list \<Rightarrow> region_ref option \<Rightarrow> bool"
where
  "dll_seg h pv [] nx = True"
| "dll_seg h pv (r # rs) nx =
     (hr_prev (h r) = pv \<and> hr_next (h r) = first_of rs nx \<and> dll_seg h (Some r) rs nx)"

text \<open>
  \<open>list_repr h l rs\<close>: in the store \<open>h\<close> the list \<open>l\<close> holds exactly the regions
  \<open>rs\<close>, head first: its length is their number, no region occurs twice, head and
  tail are the first and the last, the head has no \<open>prev\<close> and the tail no \<open>next\<close>,
  neighbours point at each other, and the indices ascend strictly.
\<close>

definition list_repr :: "region_store \<Rightarrow> FreeSemeruRegionList \<Rightarrow> region_ref list \<Rightarrow> bool" where
  "list_repr h l rs =
     (rl_length l = length rs \<and> distinct rs \<and>
      rl_head l = first_of rs None \<and> rl_tail l = last_of rs None \<and>
      dll_seg h None rs None \<and>
      sorted_wrt (<) (map (\<lambda>r. hrm_index (h r)) rs))"

text \<open>
  \<open>max_index_node h rs m\<close>: \<open>m\<close> is a region of \<open>rs\<close> whose index no region of
  \<open>rs\<close> exceeds (\<open>NULL\<close> when there is none). \<open>index_disjoint h ls ms\<close>: no index
  occurs both among \<open>ls\<close> and among \<open>ms\<close>.
\<close>

definition max_index_node :: "region_store \<Rightarrow> region_ref list \<Rightarrow> region_ref option \<Rightarrow> bool" where
  "max_index_node h rs m =
     (case m of
        None \<Rightarrow> rs = []
      | Some x \<Rightarrow> x \<in> set rs \<and> (\<forall>r \<in> set rs. hrm_index (h r) \<le> hrm_index (h x)))"

definition index_disjoint :: "region_store \<Rightarrow> region_ref list \<Rightarrow> region_ref list \<Rightarrow> bool" where
  "index_disjoint h ls ms =
     (set (map (\<lambda>r. hrm_index (h r)) ls) \<inter> set (map (\<lambda>r. hrm_index (h r)) ms) = {})"

section \<open>The concurrent marker: data (g1SemeruConcurrentMark.cpp, .inline.hpp)\<close>

text \<open>
  Addresses count heap words. A pointer that may be \<open>NULL\<close> is an option. A region
  pointer is the region's index in the heap's region table.
\<close>

type_synonym HeapWord = nat

text \<open>
  Modelled from the spec: \<open>G1SemeruTaskQueueEntry\<close> is declared in
  g1SemeruConcurrentMark.hpp, which is not among the sources. The spec (section 3)
  gives it as a tagged one-word value, an object reference or an array slice; the
  default-constructed entry is the null entry that ends a chunk.
\<close>

datatype G1SemeruTaskQueueEntry = NullEntry | ObjEntry HeapWord | ArraySliceEntry HeapWord

datatype StarTask = NarrowOopRef HeapWord | OopRef HeapWord

datatype region_type =
  FreeRegion | YoungRegion | SurvivorRegion | OldRegion | StartsHumongous | ContinuesHumongous
  | ArchiveRegion

text \<open>
  Modelled from the spec: the per-worker deque (\<open>G1SemeruCMTaskQueue\<close>, a
  \<open>GenericTaskQueue\<close> that is not among the sources) is a bounded buffer;
  \<open>push\<close> returns false when it is full, \<open>pop_local\<close> takes the entry pushed last,
  a steal takes from the opposite end. The head of \<open>tq_elems\<close> is the entry pushed
  last.
\<close>

record G1SemeruCMTaskQueue =
  tq_elems :: "G1SemeruTaskQueueEntry list"
  tq_max_elems :: nat

definition tq_push :: "G1SemeruTaskQueueEntry \<Rightarrow> G1SemeruCMTaskQueue \<Rightarrow> bool \<times> G1SemeruCMTaskQueue" where
  "tq_push e q =
     (if length (tq_elems q) < tq_max_elems q then (True, q\<lparr>tq_elems := e # tq_elems q\<rparr>)
      else (False, q))"

definition tq_pop_local :: "G1SemeruCMTaskQueue \<Rightarrow> (G1SemeruTaskQueueEntry \<times> G1SemeruCMTaskQueue) option" where
  "tq_pop_local q =
     (case tq_elems q of [] \<Rightarrow> None | e # es \<Rightarrow> Some (e, q\<lparr>tq_elems := es\<rparr>))"


definition tq_size :: "G1SemeruCMTaskQueue \<Rightarrow> nat" where
  "tq_size q = length (tq_elems q)"

text \<open>
  Modelled from the spec: the target-object queue of a region (an
  \<open>OverflowTaskQueue\<close> of \<open>StarTask\<close>, not among the sources): a bounded deque
  with an unbounded overflow stack behind it.
\<close>

record TargetObjQueue =
  toq_elems :: "StarTask list"
  toq_max_elems :: nat
  toq_overflow :: "StarTask list"

text \<open>
  Modelled from the spec: \<open>HeapRegion\<close> is not among the sources. Section 3 of the
  spec lists what a region exposes; \<open>alive_bitmap\<close> is the set of marked addresses
  (\<open>par_mark\<close> sets a bit and tells whether this call flipped it, \<open>is_marked\<close>
  reads it), and \<open>obj_allocated_since_next_marking\<close> is the test "address at or
  above NTAMS".
\<close>

record HeapRegion =
  bottom :: HeapWord
  hr_top :: HeapWord
  hr_end :: HeapWord
  next_top_at_mark_start :: HeapWord
  region_tag :: region_type
  alive_bitmap :: "HeapWord set"
  target_obj_queue :: TargetObjQueue
  mem_server_cset_next :: "nat option"

definition is_in_reserved :: "HeapRegion \<Rightarrow> HeapWord \<Rightarrow> bool" where
  "is_in_reserved r a = (bottom r \<le> a \<and> a < hr_end r)"

definition obj_allocated_since_next_marking :: "HeapRegion \<Rightarrow> HeapWord \<Rightarrow> bool" where
  "obj_allocated_since_next_marking r obj = (next_top_at_mark_start r \<le> obj)"

definition is_starts_humongous :: "HeapRegion \<Rightarrow> bool" where
  "is_starts_humongous r = (region_tag r = StartsHumongous)"

definition is_continues_humongous :: "HeapRegion \<Rightarrow> bool" where
  "is_continues_humongous r = (region_tag r = ContinuesHumongous)"

definition is_humongous :: "HeapRegion \<Rightarrow> bool" where
  "is_humongous r = (is_starts_humongous r \<or> is_continues_humongous r)"

definition par_mark :: "HeapWord set \<Rightarrow> HeapWord \<Rightarrow> bool \<times> HeapWord set" where
  "par_mark bm a = (a \<notin> bm, insert a bm)"

definition is_marked :: "HeapWord set \<Rightarrow> HeapWord \<Rightarrow> bool" where
  "is_marked bm a = (a \<in> bm)"

text \<open>
  \<open>G1SemeruCMMarkStack\<close>, the chunked overflow stack. A chunk is its data array;
  \<open>chunk_list\<close> and \<open>free_list\<close> are the two linked lists, head first.
\<close>

record G1SemeruCMMarkStack =
  chunk_list :: "G1SemeruTaskQueueEntry list list"
  free_list :: "G1SemeruTaskQueueEntry list list"
  hwm :: nat
  chunk_capacity :: nat
  max_chunk_capacity :: nat
  chunks_in_chunk_list :: nat

text \<open>
  Modelled from the spec: \<open>EntriesPerChunk\<close> is declared in the missing header; the
  source's comment at its use in \<open>move_entries_to_global_stack\<close> gives \<open>1024 - 1\<close>.
\<close>

definition EntriesPerChunk :: nat where
  "EntriesPerChunk = 1023"

text \<open>
  The objects, opaque to the marker: a size, the addresses of the reference fields,
  what a field holds, and two type tests.
\<close>

record object_model =
  obj_size :: "HeapWord \<Rightarrow> nat"
  obj_is_typeArray :: "HeapWord \<Rightarrow> bool"
  obj_should_be_sliced :: "HeapWord \<Rightarrow> bool"
  obj_ref_fields :: "HeapWord \<Rightarrow> HeapWord list"
  oop_load :: "HeapWord \<Rightarrow> HeapWord option"

text \<open>
  What the marker reads from outside: the virtual-time clock in milliseconds (the
  n-th reading is \<open>elapsed_vtime_ms n\<close>; the source's doubles are taken as reals),
  the yield request of the suspendible thread set, whether completed SATB buffers wait,
  the predictor, whether mapping memory for a larger mark stack succeeds, and the
  constants of the missing header and of the flags.
\<close>

record environment =
  elapsed_vtime_ms :: "nat \<Rightarrow> real"
  sts_should_yield :: bool
  satb_process_completed_buffers :: bool
  predictor_get_new_prediction :: "real list \<Rightarrow> real"
  mmap_succeeds :: bool
  words_scanned_period :: "64 word"
  refs_reached_period :: "64 word"
  GCDrainStackTargetSize :: nat

text \<open>
  One record holds the global \<open>G1SemeruConcurrentMark\<close> (fields \<open>cm_\<close>), the region
  table of the heap, and one worker's \<open>G1SemeruCMTask\<close>. The worker's own deque is
  \<open>semeru_task_queue\<close>; \<open>cm_other_task_queues\<close> are the deques of the other workers.
  \<open>task_alive_bitmap\<close> is the region whose alive bitmap \<open>_alive_bitmap\<close> points to.
  \<open>mark_stats_cache\<close> holds, per region, the live words this worker has counted and
  not yet flushed to \<open>cm_region_mark_stats\<close>. \<open>cm_terminator_offered\<close> counts the
  offers of termination made to the terminator; in the sources every call of
  \<open>offer_termination\<close> stands in code that is commented out, so no definition below
  writes this field.
\<close>

record marker =
  cm_finger :: "HeapWord option"
  cm_has_overflown :: bool
  cm_has_aborted :: bool
  cm_concurrent :: bool
  cm_global_mark_stack :: G1SemeruCMMarkStack
  cm_region_mark_stats :: "nat \<Rightarrow> nat"
  cm_other_task_queues :: "G1SemeruCMTaskQueue list"
  cm_terminator_offered :: nat
  cm_first_barrier_entered :: nat
  cm_second_barrier_entered :: nat
  cm_heap_start :: HeapWord
  heap_regions :: "nat \<Rightarrow> HeapRegion"
  heap_max_regions :: nat
  worker_id :: nat
  curr_region :: "nat option"
  task_alive_bitmap :: "nat option"
  task_finger :: "HeapWord option"
  region_limit :: "HeapWord option"
  has_aborted :: bool
  has_timed_out :: bool
  draining_satb_buffers :: bool
  words_scanned :: "64 word"
  words_scanned_limit :: "64 word"
  real_words_scanned_limit :: "64 word"
  refs_reached :: "64 word"
  refs_reached_limit :: "64 word"
  real_refs_reached_limit :: "64 word"
  start_time_ms :: real
  time_target_ms :: real
  calls :: nat
  semeru_task_queue :: G1SemeruCMTaskQueue
  mark_stats_cache :: "nat \<Rightarrow> nat"
  cm_oop_closure_set :: bool
  step_times_ms :: "real list"
  marking_step_diffs_ms :: "real list"
  vtime_reads :: nat
  objs :: object_model
  env :: environment

text \<open>
  How a call can fail. The source's \<open>assert\<close> and \<open>guarantee\<close> are branches of the
  model, each with a failure of its own; \<open>OutOfFuel\<close> is a loop that used up the
  iteration budget it was given.
\<close>

datatype failure =
    NoCurrentRegion
  | NotInCurrentRegion
  | MarkInContinuesHumongous
  | WrongAliveBitmap
  | PushRetryFailed
  | RefillPushFailed
  | LocalQueueNotDrained
  | ArraySliceNotFinished
  | SkippedScanOfNonTypeArray
  | NullEntryScanned
  | NarrowOopNotSupported
  | HumongousScanError
  | EmptyHumongousRegion
  | CASFailed
  | FingerNotInHeap
  | RegionLimitBelowBottom
  | NotOutOfRegions
  | TaskFingerNotNull
  | ClosureInvariant
  | TimeTargetTooSmall
  | OutOfFuel

definition thenE :: "failure + 'a \<Rightarrow> ('a \<Rightarrow> failure + 'b) \<Rightarrow> failure + 'b" where
  "thenE m f = (case m of Inl e \<Rightarrow> Inl e | Inr x \<Rightarrow> f x)"

section \<open>The region-claim cursor\<close>

text \<open>
  Modelled from the spec: \<open>heap_region_containing\<close> belongs to the heap, which is not
  among the sources; it is the region whose reserved range holds the address.
\<close>

definition heap_region_containing :: "marker \<Rightarrow> HeapWord \<Rightarrow> nat option" where
  "heap_region_containing s a =
     find (\<lambda>i. is_in_reserved (heap_regions s i) a) [0..<heap_max_regions s]"

text \<open>
  \<open>G1SemeruConcurrentMark::claim_region\<close>, from the point where \<open>old_finger\<close> has
  been read. The state's \<open>cm_finger\<close> is what the loop test and the compare-and-swap
  then find in \<open>_finger\<close>; when another worker has moved it in between, the swap fails
  and the source stops at \<open>guarantee(false)\<close>.
\<close>

definition claim_region_from :: "HeapWord option \<Rightarrow> marker \<Rightarrow> failure + (nat option \<times> marker)" where
  "claim_region_from old_finger s =
     (case cm_finger s of
        None \<Rightarrow> Inr (None, s)
      | Some current \<Rightarrow>
          (case old_finger of
             None \<Rightarrow> Inl FingerNotInHeap
           | Some old \<Rightarrow>
               (case heap_region_containing s old of
                  None \<Rightarrow> Inl FingerNotInHeap
                | Some r \<Rightarrow>
                    let curr = heap_regions s r;
                        end_w = (case mem_server_cset_next curr of
                                   None \<Rightarrow> None
                                 | Some n \<Rightarrow> Some (bottom (heap_regions s n)))
                    in if current = old then
                         let s' = s\<lparr>cm_finger := end_w\<rparr>;
                             limit = next_top_at_mark_start curr
                         in if bottom curr < limit then Inr (Some r, s')
                            else if limit = bottom curr then Inr (None, s')
                            else Inl RegionLimitBelowBottom
                       else Inl CASFailed)))"

definition claim_region :: "marker \<Rightarrow> failure + (nat option \<times> marker)" where
  "claim_region s = claim_region_from (cm_finger s) s"

text \<open>
  Modelled from the spec: \<open>out_of_memory_server_cset\<close> is declared in the missing
  header; the cursor is exhausted when \<open>finger\<close> is \<open>NULL\<close> (spec, section 4.6).
\<close>

definition out_of_memory_server_cset :: "marker \<Rightarrow> bool" where
  "out_of_memory_server_cset s = (cm_finger s = None)"

section \<open>The clock\<close>

definition recalculate_limits :: "marker \<Rightarrow> marker" where
  "recalculate_limits s =
     (let rw = words_scanned s + words_scanned_period (env s);
          rr = refs_reached s + refs_reached_period (env s)
      in s\<lparr>real_words_scanned_limit := rw, words_scanned_limit := rw,
            real_refs_reached_limit := rr, refs_reached_limit := rr\<rparr>)"

definition decrease_limits :: "marker \<Rightarrow> marker" where
  "decrease_limits s =
     s\<lparr>words_scanned_limit :=
          real_words_scanned_limit s - 3 * words_scanned_period (env s) div 4,
        refs_reached_limit :=
          real_refs_reached_limit s - 3 * refs_reached_period (env s) div 4\<rparr>"

text \<open>\<open>os::elapsedVTime() * 1000.0\<close>: one reading of the clock.\<close>

definition read_vtime_ms :: "marker \<Rightarrow> real \<times> marker" where
  "read_vtime_ms s = (elapsed_vtime_ms (env s) (vtime_reads s), s\<lparr>vtime_reads := Suc (vtime_reads s)\<rparr>)"

text \<open>
  Modelled from the spec: \<open>set_has_aborted\<close> and \<open>has_aborted\<close> of the task are
  declared in the missing header; the first sets the task's abort flag, which the
  second reads (spec, section 3, worker task state, and section 4.10).
\<close>

definition set_has_aborted :: "marker \<Rightarrow> marker" where
  "set_has_aborted s = s\<lparr>has_aborted := True\<rparr>"

definition regular_clock_call :: "marker \<Rightarrow> bool \<times> marker" where
  "regular_clock_call s =
     (if has_aborted s then (False, s)
      else
        let s1 = recalculate_limits s in
        if cm_has_overflown s1 then (False, s1)
        else if \<not> cm_concurrent s1 then (True, s1)
        else if cm_has_aborted s1 then (False, s1)
        else
          let (curr_time_ms, s2) = read_vtime_ms s1 in
          if sts_should_yield (env s2) then (False, s2)
          else
            let elapsed_time_ms = curr_time_ms - start_time_ms s2 in
            if time_target_ms s2 < elapsed_time_ms then (False, s2\<lparr>has_timed_out := True\<rparr>)
            else if \<not> draining_satb_buffers s2 \<and> satb_process_completed_buffers (env s2)
              then (False, s2)
            else (True, s2))"

definition abort_marking_if_regular_check_fail :: "marker \<Rightarrow> marker" where
  "abort_marking_if_regular_check_fail s =
     (case regular_clock_call s of
        (True, s1) \<Rightarrow> s1
      | (False, s1) \<Rightarrow> set_has_aborted s1)"

section \<open>The overflow stack (\<open>G1SemeruCMMarkStack\<close>)\<close>

definition add_chunk_to_list :: "'a list \<Rightarrow> 'a \<Rightarrow> 'a list" where
  "add_chunk_to_list l elem = elem # l"

definition remove_chunk_from_list :: "'a list \<Rightarrow> 'a option \<times> 'a list" where
  "remove_chunk_from_list l = (case l of [] \<Rightarrow> (None, []) | c # cs \<Rightarrow> (Some c, cs))"

definition add_chunk_to_chunk_list ::
  "G1SemeruTaskQueueEntry list \<Rightarrow> G1SemeruCMMarkStack \<Rightarrow> G1SemeruCMMarkStack" where
  "add_chunk_to_chunk_list elem ms =
     ms\<lparr>chunk_list := add_chunk_to_list (chunk_list ms) elem,
        chunks_in_chunk_list := chunks_in_chunk_list ms + 1\<rparr>"

definition add_chunk_to_free_list ::
  "G1SemeruTaskQueueEntry list \<Rightarrow> G1SemeruCMMarkStack \<Rightarrow> G1SemeruCMMarkStack" where
  "add_chunk_to_free_list elem ms = ms\<lparr>free_list := add_chunk_to_list (free_list ms) elem\<rparr>"

definition remove_chunk_from_chunk_list ::
  "G1SemeruCMMarkStack \<Rightarrow> G1SemeruTaskQueueEntry list option \<times> G1SemeruCMMarkStack" where
  "remove_chunk_from_chunk_list ms =
     (case remove_chunk_from_list (chunk_list ms) of
        (None, l) \<Rightarrow> (None, ms\<lparr>chunk_list := l\<rparr>)
      | (Some c, l) \<Rightarrow>
          (Some c, ms\<lparr>chunk_list := l, chunks_in_chunk_list := chunks_in_chunk_list ms - 1\<rparr>))"

definition remove_chunk_from_free_list ::
  "G1SemeruCMMarkStack \<Rightarrow> G1SemeruTaskQueueEntry list option \<times> G1SemeruCMMarkStack" where
  "remove_chunk_from_free_list ms =
     (case remove_chunk_from_list (free_list ms) of (c, l) \<Rightarrow> (c, ms\<lparr>free_list := l\<rparr>))"

definition allocate_new_chunk ::
  "G1SemeruCMMarkStack \<Rightarrow> G1SemeruTaskQueueEntry list option \<times> G1SemeruCMMarkStack" where
  "allocate_new_chunk ms =
     (if chunk_capacity ms \<le> hwm ms then (None, ms)
      else
        let cur_idx = hwm ms;
            ms1 = ms\<lparr>hwm := hwm ms + 1\<rparr>
        in if chunk_capacity ms1 \<le> cur_idx then (None, ms1)
           else (Some (replicate EntriesPerChunk NullEntry), ms1))"

text \<open>
  \<open>par_push_chunk\<close> copies \<open>EntriesPerChunk\<close> entries of the caller's array over the
  data of the chunk it got, so the chunk that goes on the chunk list is that copy.
\<close>

definition par_push_chunk ::
  "G1SemeruTaskQueueEntry list \<Rightarrow> G1SemeruCMMarkStack \<Rightarrow> bool \<times> G1SemeruCMMarkStack" where
  "par_push_chunk ptr_arr ms =
     (case remove_chunk_from_free_list ms of
        (Some new_chunk, ms1) \<Rightarrow>
          (True, add_chunk_to_chunk_list (take EntriesPerChunk ptr_arr) ms1)
      | (None, ms1) \<Rightarrow>
          (case allocate_new_chunk ms1 of
             (None, ms2) \<Rightarrow> (False, ms2)
           | (Some new_chunk, ms2) \<Rightarrow>
               (True, add_chunk_to_chunk_list (take EntriesPerChunk ptr_arr) ms2)))"

definition par_pop_chunk ::
  "G1SemeruCMMarkStack \<Rightarrow> G1SemeruTaskQueueEntry list option \<times> G1SemeruCMMarkStack" where
  "par_pop_chunk ms =
     (case remove_chunk_from_chunk_list ms of
        (None, ms1) \<Rightarrow> (None, ms1)
      | (Some cur, ms1) \<Rightarrow> (Some (take EntriesPerChunk cur), add_chunk_to_free_list cur ms1))"

definition set_empty :: "G1SemeruCMMarkStack \<Rightarrow> G1SemeruCMMarkStack" where
  "set_empty ms = ms\<lparr>chunks_in_chunk_list := 0, hwm := 0, chunk_list := [], free_list := []\<rparr>"

text \<open>
  \<open>resize\<close> maps a new backing array; \<open>mmap_succeeds\<close> of the environment says
  whether the mapping is granted.
\<close>

definition resize :: "bool \<Rightarrow> nat \<Rightarrow> G1SemeruCMMarkStack \<Rightarrow> bool \<times> G1SemeruCMMarkStack" where
  "resize granted new_capacity ms =
     (if \<not> granted then (False, ms)
      else (True, set_empty (ms\<lparr>chunk_capacity := new_capacity\<rparr>)))"

definition expand :: "bool \<Rightarrow> G1SemeruCMMarkStack \<Rightarrow> G1SemeruCMMarkStack" where
  "expand granted ms =
     (if chunk_capacity ms = max_chunk_capacity ms then ms
      else
        let old_capacity = chunk_capacity ms;
            new_capacity = min (old_capacity * 2) (max_chunk_capacity ms)
        in snd (resize granted new_capacity ms))"

text \<open>
  Modelled from the spec: \<open>mark_stack_push\<close>, \<open>mark_stack_pop\<close>, \<open>mark_stack_size\<close>,
  \<open>partial_mark_stack_size_target\<close> and \<open>mark_stack_empty\<close> of
  \<open>G1SemeruConcurrentMark\<close> are defined in the missing header. A push that fails
  sets the global \<open>has_overflown\<close> flag (spec, section 4.3); the size is counted in
  entries and the partial-drain target is a third of the capacity.
\<close>

definition mark_stack_push :: "G1SemeruTaskQueueEntry list \<Rightarrow> marker \<Rightarrow> bool \<times> marker" where
  "mark_stack_push arr s =
     (case par_push_chunk arr (cm_global_mark_stack s) of
        (True, ms) \<Rightarrow> (True, s\<lparr>cm_global_mark_stack := ms\<rparr>)
      | (False, ms) \<Rightarrow> (False, s\<lparr>cm_global_mark_stack := ms, cm_has_overflown := True\<rparr>))"

definition mark_stack_pop :: "marker \<Rightarrow> G1SemeruTaskQueueEntry list option \<times> marker" where
  "mark_stack_pop s =
     (case par_pop_chunk (cm_global_mark_stack s) of
        (res, ms) \<Rightarrow> (res, s\<lparr>cm_global_mark_stack := ms\<rparr>))"

definition mark_stack_size :: "marker \<Rightarrow> nat" where
  "mark_stack_size s = chunks_in_chunk_list (cm_global_mark_stack s) * EntriesPerChunk"

definition partial_mark_stack_size_target :: "marker \<Rightarrow> nat" where
  "partial_mark_stack_size_target s = chunk_capacity (cm_global_mark_stack s) div 3"


section \<open>Pushing to the local deque\<close>

text \<open>
  The loop of \<open>move_entries_to_global_stack\<close>:
  \<^verbatim>\<open>while (n < EntriesPerChunk && _semeru_task_queue->pop_local(task_entry)) {
    buffer[n] = task_entry; ++n; }\<close>
\<close>

function fill_buffer ::
  "nat \<Rightarrow> G1SemeruTaskQueueEntry list \<Rightarrow> G1SemeruCMTaskQueue \<Rightarrow>
   nat \<times> G1SemeruTaskQueueEntry list \<times> G1SemeruCMTaskQueue"
where
  "fill_buffer n buffer q =
     (if n < EntriesPerChunk then
        (case tq_pop_local q of
           None \<Rightarrow> (n, buffer, q)
         | Some (task_entry, q') \<Rightarrow> fill_buffer (Suc n) (buffer[n := task_entry]) q')
      else (n, buffer, q))"
  by pat_completeness auto
termination
  by (relation "measure (\<lambda>(n, buffer, q). EntriesPerChunk - n)") auto

declare fill_buffer.simps [simp del]

text \<open>
  The local array \<open>buffer\<close> is an array of \<open>EntriesPerChunk\<close> default-constructed,
  that is null, entries.
\<close>

definition move_entries_to_global_stack :: "marker \<Rightarrow> marker" where
  "move_entries_to_global_stack s =
     (let buffer0 = replicate EntriesPerChunk NullEntry;
          (n, buffer1, q) = fill_buffer 0 buffer0 (semeru_task_queue s);
          buffer = (if n < EntriesPerChunk then buffer1[n := NullEntry] else buffer1);
          s1 = s\<lparr>semeru_task_queue := q\<rparr>;
          s2 = (if 0 < n then
                  (case mark_stack_push buffer s1 of
                     (True, s') \<Rightarrow> s'
                   | (False, s') \<Rightarrow> set_has_aborted s')
                else s1)
      in decrease_limits s2)"

text \<open>
  \<open>G1SemeruCMTask::push\<close>. The four assertions on the entry at its head read the
  heap's free list and the next mark bitmap, which are not part of this model; the
  assertion on the retried push is the failure \<open>PushRetryFailed\<close>.
\<close>

definition push :: "G1SemeruTaskQueueEntry \<Rightarrow> marker \<Rightarrow> failure + marker" where
  "push task_entry s =
     (case tq_push task_entry (semeru_task_queue s) of
        (True, q) \<Rightarrow> Inr (s\<lparr>semeru_task_queue := q\<rparr>)
      | (False, q) \<Rightarrow>
          let s1 = move_entries_to_global_stack (s\<lparr>semeru_task_queue := q\<rparr>) in
          (case tq_push task_entry (semeru_task_queue s1) of
             (True, q1) \<Rightarrow> Inr (s1\<lparr>semeru_task_queue := q1\<rparr>)
           | (False, q1) \<Rightarrow> Inl PushRetryFailed))"

section \<open>Marking a referent\<close>

text \<open>
  Modelled from the spec: \<open>addr_to_region\<close> of the heap (not among the sources) is
  the index of the region that holds the address; and the statistics cache
  (\<open>G1RegionMarkStatsCache\<close>, not among the sources) adds live words to the worker's
  counter of a region, \<open>evict_all\<close> folding every counter into the shared array.
\<close>

definition addr_to_region :: "marker \<Rightarrow> HeapWord \<Rightarrow> nat" where
  "addr_to_region s a =
     (case heap_region_containing s a of Some i \<Rightarrow> i | None \<Rightarrow> heap_max_regions s)"

definition add_live_words :: "nat \<Rightarrow> nat \<Rightarrow> marker \<Rightarrow> marker" where
  "add_live_words region_idx live_words s =
     s\<lparr>mark_stats_cache :=
          (mark_stats_cache s)(region_idx := mark_stats_cache s region_idx + live_words)\<rparr>"

definition update_liveness :: "HeapWord \<Rightarrow> nat \<Rightarrow> marker \<Rightarrow> marker" where
  "update_liveness obj obj_sz s = add_live_words (addr_to_region s obj) obj_sz s"

text \<open>
  \<open>add_to_liveness\<close> hands the size to the task of the given worker. The model holds
  one task; the cache of another worker's task is not part of it.
\<close>

definition add_to_liveness :: "nat \<Rightarrow> HeapWord \<Rightarrow> nat \<Rightarrow> marker \<Rightarrow> marker" where
  "add_to_liveness wid obj obj_sz s =
     (if wid = worker_id s then update_liveness obj obj_sz s else s)"

definition mark_in_alive_bitmap :: "nat \<Rightarrow> HeapWord \<Rightarrow> marker \<Rightarrow> failure + (bool \<times> marker)" where
  "mark_in_alive_bitmap wid obj s =
     (case curr_region s of
        None \<Rightarrow> Inl NoCurrentRegion
      | Some r \<Rightarrow>
          if \<not> is_in_reserved (heap_regions s r) obj then Inl NotInCurrentRegion
          else if obj_allocated_since_next_marking (heap_regions s r) obj then Inr (False, s)
          else if is_continues_humongous (heap_regions s r) then Inl MarkInContinuesHumongous
          else if task_alive_bitmap s \<noteq> Some r then Inl WrongAliveBitmap
          else
            let (success, bm) = par_mark (alive_bitmap (heap_regions s r)) obj;
                s1 = s\<lparr>heap_regions := (heap_regions s)(r := (heap_regions s r)\<lparr>alive_bitmap := bm\<rparr>)\<rparr>
            in Inr (success,
                    if success then add_to_liveness wid obj (obj_size (objs s1) obj) s1 else s1))"

text \<open>
  \<open>process_grey_task_entry<false>\<close>: no scan; its assertion wants an object entry
  of a primitive-typed array.
\<close>

definition process_grey_task_entry_false :: "G1SemeruTaskQueueEntry \<Rightarrow> marker \<Rightarrow> failure + marker" where
  "process_grey_task_entry_false task_entry s =
     (case task_entry of
        ObjEntry obj \<Rightarrow>
          if obj_is_typeArray (objs s) obj then Inr s else Inl SkippedScanOfNonTypeArray
      | _ \<Rightarrow> Inl SkippedScanOfNonTypeArray)"

definition make_reference_alive :: "HeapWord \<Rightarrow> marker \<Rightarrow> failure + (bool \<times> marker)" where
  "make_reference_alive obj s =
     thenE (mark_in_alive_bitmap (worker_id s) obj s) (\<lambda>(marked, s1).
       if \<not> marked then Inr (False, s1)
       else
         thenE (if obj_is_typeArray (objs s1) obj
                then process_grey_task_entry_false (ObjEntry obj) s1
                else push (ObjEntry obj) s1)
           (\<lambda>s2. Inr (True, s2)))"

text \<open>
  \<open>deal_with_reference(p)\<close>: \<open>p\<close> is the address of a reference field. A \<open>NULL\<close>
  \<open>_curr_region\<close> would be dereferenced by the range test.
\<close>

definition deal_with_reference :: "HeapWord \<Rightarrow> marker \<Rightarrow> failure + (bool \<times> marker)" where
  "deal_with_reference p s =
     (case oop_load (objs s) p of
        None \<Rightarrow> Inr (False, s)
      | Some obj \<Rightarrow>
          (case curr_region s of
             None \<Rightarrow> Inl NoCurrentRegion
           | Some r \<Rightarrow>
               if \<not> is_in_reserved (heap_regions s r) obj then Inr (False, s)
               else make_reference_alive obj s))"

definition dispatch_reference :: "StarTask \<Rightarrow> marker \<Rightarrow> failure + marker" where
  "dispatch_reference ref s =
     (case ref of
        NarrowOopRef p \<Rightarrow> Inl NarrowOopNotSupported
      | OopRef p \<Rightarrow> thenE (deal_with_reference p s) (\<lambda>(res, s1). Inr s1))"

section \<open>Scanning and draining\<close>

text \<open>
  Modelled from the spec: \<open>oop_iterate_size\<close> and the closure's \<open>do_oop\<close> live in
  headers that are not among the sources. The spec (section 4.8) has the scan iterate
  the fields and invoke the field closure, \<open>deal_with_reference\<close>, on each reference
  field; the call returns the object's size.
\<close>

fun oop_iterate :: "HeapWord list \<Rightarrow> marker \<Rightarrow> failure + marker" where
  "oop_iterate [] s = Inr s"
| "oop_iterate (p # ps) s = thenE (deal_with_reference p s) (\<lambda>(res, s1). oop_iterate ps s1)"

text \<open>
  \<open>process_grey_task_entry<true>\<close>. Array slices and arrays that should be sliced
  stop at the source's \<open>assert(false, "... Not finished yet")\<close>; the null entry has
  no object to read.
\<close>

definition process_grey_task_entry_true :: "G1SemeruTaskQueueEntry \<Rightarrow> marker \<Rightarrow> failure + marker" where
  "process_grey_task_entry_true task_entry s =
     (case task_entry of
        ArraySliceEntry a \<Rightarrow> Inl ArraySliceNotFinished
      | NullEntry \<Rightarrow> Inl NullEntryScanned
      | ObjEntry obj \<Rightarrow>
          if obj_should_be_sliced (objs s) obj then Inl ArraySliceNotFinished
          else
            thenE (oop_iterate (obj_ref_fields (objs s) obj) s) (\<lambda>s1.
              Inr (s1\<lparr>words_scanned := words_scanned s1 + of_nat (obj_size (objs s1) obj)\<rparr>)))"

definition scan_task_entry :: "G1SemeruTaskQueueEntry \<Rightarrow> marker \<Rightarrow> failure + marker" where
  "scan_task_entry task_entry s = process_grey_task_entry_true task_entry s"

text \<open>
  The loop of \<open>drain_local_queue\<close>, entered with an entry already popped:
  \<^verbatim>\<open>while (ret) { scan_task_entry(entry);
    if (size() <= target_sz || has_aborted()) ret = false;
    else ret = pop_local(entry); }\<close>
\<close>

fun drain_local_loop ::
  "nat \<Rightarrow> nat \<Rightarrow> G1SemeruTaskQueueEntry \<Rightarrow> marker \<Rightarrow> failure + marker"
where
  "drain_local_loop 0 target_sz entry s = Inl OutOfFuel"
| "drain_local_loop (Suc k) target_sz entry s =
     thenE (scan_task_entry entry s) (\<lambda>s1.
       if tq_size (semeru_task_queue s1) \<le> target_sz \<or> has_aborted s1 then Inr s1
       else
         (case tq_pop_local (semeru_task_queue s1) of
            None \<Rightarrow> Inr s1
          | Some (e, q) \<Rightarrow> drain_local_loop k target_sz e (s1\<lparr>semeru_task_queue := q\<rparr>)))"

definition drain_local_queue :: "nat \<Rightarrow> bool \<Rightarrow> marker \<Rightarrow> failure + marker" where
  "drain_local_queue fuel partially s =
     (if has_aborted s then Inr s
      else
        let target_sz =
              (if partially
               then min (tq_max_elems (semeru_task_queue s) div 3) (GCDrainStackTargetSize (env s))
               else 0)
        in if target_sz < tq_size (semeru_task_queue s) then
             (case tq_pop_local (semeru_task_queue s) of
                None \<Rightarrow> Inr s
              | Some (entry, q) \<Rightarrow> drain_local_loop fuel target_sz entry (s\<lparr>semeru_task_queue := q\<rparr>))
           else Inr s)"

text \<open>
  The loop of \<open>get_entries_from_global_stack\<close> over the popped buffer, which stops
  at the first null entry.
\<close>

fun push_popped_entries :: "G1SemeruTaskQueueEntry list \<Rightarrow> marker \<Rightarrow> failure + marker" where
  "push_popped_entries [] s = Inr s"
| "push_popped_entries (task_entry # rest) s =
     (if task_entry = NullEntry then Inr s
      else
        (case tq_push task_entry (semeru_task_queue s) of
           (True, q) \<Rightarrow> push_popped_entries rest (s\<lparr>semeru_task_queue := q\<rparr>)
         | (False, q) \<Rightarrow> Inl RefillPushFailed))"

definition get_entries_from_global_stack :: "marker \<Rightarrow> failure + (bool \<times> marker)" where
  "get_entries_from_global_stack s =
     (case mark_stack_pop s of
        (None, s1) \<Rightarrow> Inr (False, s1)
      | (Some buffer, s1) \<Rightarrow>
          thenE (push_popped_entries (take EntriesPerChunk buffer) s1) (\<lambda>s2.
            Inr (True, decrease_limits s2)))"

text \<open>
  The two loops of \<open>drain_global_stack\<close>. \<open>n\<close> bounds the iterations of the loop
  itself and \<open>fuel\<close> is handed to each \<open>drain_local_queue\<close>.
\<close>

fun drain_global_partial_loop :: "nat \<Rightarrow> nat \<Rightarrow> nat \<Rightarrow> marker \<Rightarrow> failure + marker" where
  "drain_global_partial_loop 0 fuel target_sz s = Inl OutOfFuel"
| "drain_global_partial_loop (Suc n) fuel target_sz s =
     (if \<not> has_aborted s \<and> target_sz < mark_stack_size s then
        thenE (get_entries_from_global_stack s) (\<lambda>(got, s1).
          if got then
            thenE (drain_local_queue fuel True s1) (drain_global_partial_loop n fuel target_sz)
          else drain_global_partial_loop n fuel target_sz s1)
      else Inr s)"

fun drain_global_total_loop :: "nat \<Rightarrow> nat \<Rightarrow> marker \<Rightarrow> failure + marker" where
  "drain_global_total_loop 0 fuel s = Inl OutOfFuel"
| "drain_global_total_loop (Suc n) fuel s =
     (if has_aborted s then Inr s
      else
        thenE (get_entries_from_global_stack s) (\<lambda>(got, s1).
          if got then
            thenE (drain_local_queue fuel False s1) (drain_global_total_loop n fuel)
          else Inr s1))"

definition drain_global_stack :: "nat \<Rightarrow> bool \<Rightarrow> marker \<Rightarrow> failure + marker" where
  "drain_global_stack fuel partially s =
     (if has_aborted s then Inr s
      else if \<not> (partially \<or> tq_size (semeru_task_queue s) = 0) then Inl LocalQueueNotDrained
      else if partially then
        drain_global_partial_loop fuel fuel (partial_mark_stack_size_target s) s
      else drain_global_total_loop fuel fuel s)"

section \<open>The target-object queue of a region\<close>

text \<open>
  Modelled from the spec: the operations of the target-object queue
  (\<open>OverflowTaskQueue\<close>, not among the sources). \<open>pop_local\<close> with a threshold
  refuses when no more than the threshold is left.
\<close>

definition toq_pop_overflow :: "TargetObjQueue \<Rightarrow> (StarTask \<times> TargetObjQueue) option" where
  "toq_pop_overflow q =
     (case toq_overflow q of [] \<Rightarrow> None | t # ts \<Rightarrow> Some (t, q\<lparr>toq_overflow := ts\<rparr>))"

definition toq_try_push_to_taskqueue :: "StarTask \<Rightarrow> TargetObjQueue \<Rightarrow> bool \<times> TargetObjQueue" where
  "toq_try_push_to_taskqueue t q =
     (if length (toq_elems q) < toq_max_elems q then (True, q\<lparr>toq_elems := t # toq_elems q\<rparr>)
      else (False, q))"

definition toq_pop_local :: "nat \<Rightarrow> TargetObjQueue \<Rightarrow> (StarTask \<times> TargetObjQueue) option" where
  "toq_pop_local threshold q =
     (if length (toq_elems q) \<le> threshold then None
      else (case toq_elems q of [] \<Rightarrow> None | t # ts \<Rightarrow> Some (t, q\<lparr>toq_elems := ts\<rparr>)))"

definition toq_is_empty :: "TargetObjQueue \<Rightarrow> bool" where
  "toq_is_empty q = (toq_elems q = [] \<and> toq_overflow q = [])"

definition set_target_obj_queue :: "nat \<Rightarrow> TargetObjQueue \<Rightarrow> marker \<Rightarrow> marker" where
  "set_target_obj_queue r q s =
     s\<lparr>heap_regions := (heap_regions s)(r := (heap_regions s r)\<lparr>target_obj_queue := q\<rparr>)\<rparr>"

text \<open>
  The two loops of \<open>trim_target_object_queue_to_threshold\<close>; the queue is the one of
  region \<open>r\<close>.
\<close>

fun trim_overflow_loop :: "nat \<Rightarrow> nat \<Rightarrow> marker \<Rightarrow> failure + marker" where
  "trim_overflow_loop 0 r s = Inl OutOfFuel"
| "trim_overflow_loop (Suc n) r s =
     (case toq_pop_overflow (target_obj_queue (heap_regions s r)) of
        None \<Rightarrow> Inr s
      | Some (ref, q) \<Rightarrow>
          (case toq_try_push_to_taskqueue ref q of
             (True, q') \<Rightarrow> trim_overflow_loop n r (set_target_obj_queue r q' s)
           | (False, q') \<Rightarrow>
               thenE (dispatch_reference ref (set_target_obj_queue r q' s)) (trim_overflow_loop n r)))"

fun trim_local_loop :: "nat \<Rightarrow> nat \<Rightarrow> nat \<Rightarrow> marker \<Rightarrow> failure + marker" where
  "trim_local_loop 0 r threshold s = Inl OutOfFuel"
| "trim_local_loop (Suc n) r threshold s =
     (case toq_pop_local threshold (target_obj_queue (heap_regions s r)) of
        None \<Rightarrow> Inr s
      | Some (ref, q) \<Rightarrow>
          thenE (dispatch_reference ref (set_target_obj_queue r q s)) (trim_local_loop n r threshold))"

definition trim_target_object_queue_to_threshold ::
  "nat \<Rightarrow> nat \<Rightarrow> nat \<Rightarrow> marker \<Rightarrow> failure + marker" where
  "trim_target_object_queue_to_threshold fuel r threshold s =
     thenE (trim_overflow_loop fuel r s) (trim_local_loop fuel r threshold)"

text \<open>
  \<open>trim_target_object_queue\<close>:
  \<^verbatim>\<open>do { trim_target_object_queue_to_threshold(q, 0); } while (!q->is_empty());\<close>
\<close>

fun trim_target_object_queue_loop :: "nat \<Rightarrow> nat \<Rightarrow> nat \<Rightarrow> marker \<Rightarrow> failure + marker" where
  "trim_target_object_queue_loop 0 fuel r s = Inl OutOfFuel"
| "trim_target_object_queue_loop (Suc n) fuel r s =
     thenE (trim_target_object_queue_to_threshold fuel r 0 s) (\<lambda>s1.
       if toq_is_empty (target_obj_queue (heap_regions s1 r)) then Inr s1
       else trim_target_object_queue_loop n fuel r s1)"

definition trim_target_object_queue :: "nat \<Rightarrow> nat \<Rightarrow> marker \<Rightarrow> failure + marker" where
  "trim_target_object_queue fuel r s = trim_target_object_queue_loop fuel fuel r s"

section \<open>The mark driver\<close>

text \<open>
  \<open>setup_for_region\<close> binds the region and its alive bitmap; the destination bitmap
  is the compaction's and is not part of the model.
\<close>

definition setup_for_region :: "nat \<Rightarrow> marker \<Rightarrow> marker" where
  "setup_for_region hr s = s\<lparr>curr_region := Some hr, task_alive_bitmap := Some hr\<rparr>"

definition clear_region_fields :: "marker \<Rightarrow> marker" where
  "clear_region_fields s = s\<lparr>curr_region := None, task_finger := None, region_limit := None\<rparr>"

definition giveup_current_region :: "marker \<Rightarrow> failure + marker" where
  "giveup_current_region s =
     (case curr_region s of None \<Rightarrow> Inl NoCurrentRegion | Some r \<Rightarrow> Inr (clear_region_fields s))"

text \<open>
  \<open>set_cm_oop_closure\<close>: the argument says whether the closure pointer handed in is
  non-\<open>NULL\<close>.
\<close>

definition set_cm_oop_closure :: "bool \<Rightarrow> marker \<Rightarrow> failure + marker" where
  "set_cm_oop_closure closure_given s =
     (if closure_given = cm_oop_closure_set s then Inl ClosureInvariant
      else Inr (s\<lparr>cm_oop_closure_set := closure_given\<rparr>))"

definition semeru_cm_task_do_addr :: "nat \<Rightarrow> HeapWord \<Rightarrow> marker \<Rightarrow> failure + (bool \<times> marker)" where
  "semeru_cm_task_do_addr fuel addr s =
     (case curr_region s of
        None \<Rightarrow> Inl NoCurrentRegion
      | Some r \<Rightarrow>
          if \<not> is_in_reserved (heap_regions s r) addr then Inl NotInCurrentRegion
          else
            thenE (scan_task_entry (ObjEntry addr) s) (\<lambda>s1.
            thenE (drain_local_queue fuel True s1) (\<lambda>s2.
            thenE (drain_global_stack fuel True s2) (\<lambda>s3.
              Inr (\<not> has_aborted s3, s3)))))"

text \<open>
  The body of \<^verbatim>\<open>if (!has_aborted() && _curr_region != NULL) { ... }\<close> in
  \<open>do_semeru_marking_step\<close>, for the region \<open>r\<close> that \<open>_curr_region\<close> points to.
  When the scan of a humongous object comes back without an abort, the source stops at
  \<open>assert(false, "... process humongous Region error.")\<close>.
\<close>

definition scan_current_region :: "nat \<Rightarrow> nat \<Rightarrow> marker \<Rightarrow> failure + marker" where
  "scan_current_region fuel r s =
     (if is_humongous (heap_regions s r) then
        if hr_top (heap_regions s r) = bottom (heap_regions s r) then Inl EmptyHumongousRegion
        else
          thenE
            (if is_starts_humongous (heap_regions s r) then
               (case task_alive_bitmap s of
                  None \<Rightarrow> Inl WrongAliveBitmap
                | Some b \<Rightarrow>
                    if is_marked (alive_bitmap (heap_regions s b)) (bottom (heap_regions s r)) then
                      thenE (semeru_cm_task_do_addr fuel (bottom (heap_regions s r)) s)
                        (\<lambda>(not_aborted, s1).
                           if not_aborted then Inl HumongousScanError else Inr s1)
                    else Inr s)
             else Inr s)
            (\<lambda>s1. thenE (giveup_current_region s1) (\<lambda>s2.
               Inr (abort_marking_if_regular_check_fail s2)))
      else trim_target_object_queue fuel r s)"

text \<open>
  The claim loop
  \<^verbatim>\<open>while (!has_aborted() && !_semeru_cm->out_of_memory_server_cset()) { ... }\<close>.
\<close>

fun claim_loop :: "nat \<Rightarrow> marker \<Rightarrow> failure + marker" where
  "claim_loop 0 s = Inl OutOfFuel"
| "claim_loop (Suc n) s =
     (if \<not> has_aborted s \<and> \<not> out_of_memory_server_cset s then
        if task_finger s \<noteq> None \<or> region_limit s \<noteq> None then Inl TaskFingerNotNull
        else
          thenE (claim_region s) (\<lambda>(claimed_region, s1).
            claim_loop n
              (abort_marking_if_regular_check_fail
                 (case claimed_region of
                    None \<Rightarrow> s1
                  | Some hr \<Rightarrow> setup_for_region hr s1)))
      else Inr s)"

text \<open>
  The loop \<^verbatim>\<open>do { ... } while (_curr_region != NULL && !has_aborted());\<close> over the
  regions of the collection set.
\<close>

fun marking_loop :: "nat \<Rightarrow> nat \<Rightarrow> marker \<Rightarrow> failure + marker" where
  "marking_loop 0 fuel s = Inl OutOfFuel"
| "marking_loop (Suc n) fuel s =
     thenE
       (case curr_region s of
          None \<Rightarrow> Inr s
        | Some r \<Rightarrow> if has_aborted s then Inr s else scan_current_region fuel r s)
       (\<lambda>s1.
     thenE (drain_local_queue fuel True s1) (\<lambda>s2.
     thenE (drain_global_stack fuel True s2) (\<lambda>s3.
     thenE (claim_loop fuel s3) (\<lambda>s4.
       if \<not> has_aborted s4 \<and> curr_region s4 = None \<and> \<not> out_of_memory_server_cset s4
       then Inl NotOutOfRegions
       else if curr_region s4 \<noteq> None \<and> \<not> has_aborted s4 then marking_loop n fuel s4
       else Inr s4))))"

text \<open>
  Modelled from the spec: the two barriers (\<open>WorkGangBarrierSync\<close>, not among the
  sources) count the workers that have entered (spec, section 4.9); the model counts
  this worker's entry and goes on.
\<close>

definition enter_first_sync_barrier :: "marker \<Rightarrow> marker" where
  "enter_first_sync_barrier s = s\<lparr>cm_first_barrier_entered := Suc (cm_first_barrier_entered s)\<rparr>"

definition enter_second_sync_barrier :: "marker \<Rightarrow> marker" where
  "enter_second_sync_barrier s = s\<lparr>cm_second_barrier_entered := Suc (cm_second_barrier_entered s)\<rparr>"

definition flush_mark_stats_cache :: "marker \<Rightarrow> marker" where
  "flush_mark_stats_cache s =
     s\<lparr>cm_region_mark_stats := (\<lambda>i. cm_region_mark_stats s i + mark_stats_cache s i),
       mark_stats_cache := (\<lambda>i. 0)\<rparr>"

definition tq_set_empty :: "G1SemeruCMTaskQueue \<Rightarrow> G1SemeruCMTaskQueue" where
  "tq_set_empty q = q\<lparr>tq_elems := []\<rparr>"

definition reset_marking_for_restart :: "marker \<Rightarrow> marker" where
  "reset_marking_for_restart s =
     (let ms = set_empty (cm_global_mark_stack s);
          s1 = (if cm_has_overflown s
                then s\<lparr>cm_global_mark_stack := expand (mmap_succeeds (env s)) ms,
                       cm_region_mark_stats := (\<lambda>i. 0)\<rparr>
                else s\<lparr>cm_global_mark_stack := ms\<rparr>)
      in s1\<lparr>cm_has_overflown := False,
            cm_finger := Some (cm_heap_start s1),
            semeru_task_queue := tq_set_empty (semeru_task_queue s1),
            cm_other_task_queues := map tq_set_empty (cm_other_task_queues s1)\<rparr>)"

text \<open>
  The end of \<open>do_semeru_marking_step\<close> for a task that has aborted:
  \<^verbatim>\<open>if (has_aborted()) { if (_has_timed_out) ...; if (_semeru_cm->has_overflown()) ... }\<close>.
\<close>

definition finish_aborted_step :: "bool \<Rightarrow> real \<Rightarrow> marker \<Rightarrow> marker" where
  "finish_aborted_step is_serial elapsed_time_ms s =
     (let s1 = (if has_timed_out s
                then s\<lparr>marking_step_diffs_ms :=
                         marking_step_diffs_ms s @ [elapsed_time_ms - time_target_ms s]\<rparr>
                else s)
      in if cm_has_overflown s1 then
           let s2 = (if \<not> is_serial then enter_first_sync_barrier s1 else s1);
               s3 = flush_mark_stats_cache (clear_region_fields s2)
           in if \<not> is_serial then
                enter_second_sync_barrier
                  (if cm_concurrent s3 \<and> worker_id s3 = 0 then reset_marking_for_restart s3
                   else s3)
              else s3
         else s1)"

text \<open>
  \<open>G1SemeruCMTask::do_semeru_marking_step(time_target_ms, do_termination,
  is_serial)\<close>. After the total drain of the local queue and of the global stack the
  source goes straight on to unbinding the closure: the stealing loop and the
  termination protocol of the original driver are commented out, and
  \<open>do_termination\<close> is not read.
\<close>

definition do_semeru_marking_step ::
  "nat \<Rightarrow> real \<Rightarrow> bool \<Rightarrow> bool \<Rightarrow> marker \<Rightarrow> failure + marker" where
  "do_semeru_marking_step fuel time_target do_termination is_serial s =
     (if time_target < 1 then Inl TimeTargetTooSmall
      else
        let (now, s1) = read_vtime_ms s;
            diff_prediction_ms =
              predictor_get_new_prediction (env s1) (marking_step_diffs_ms s1);
            s2 = s1\<lparr>start_time_ms := now,
                    time_target_ms := time_target - diff_prediction_ms,
                    has_aborted := False,
                    has_timed_out := False,
                    calls := Suc (calls s1)\<rparr>
        in
        thenE (set_cm_oop_closure True s2) (\<lambda>s3.
        thenE (marking_loop fuel fuel (if cm_has_overflown s3 then set_has_aborted s3 else s3))
          (\<lambda>s4.
        if \<not> has_aborted s4 \<and> \<not> out_of_memory_server_cset s4 then Inl NotOutOfRegions
        else
        thenE (drain_local_queue fuel False s4) (\<lambda>s5.
        thenE (drain_global_stack fuel False s5) (\<lambda>s6.
        thenE (set_cm_oop_closure False s6) (\<lambda>s7.
          let (end_time_ms, s8) = read_vtime_ms s7;
              elapsed_time_ms = end_time_ms - start_time_ms s8;
              s9 = s8\<lparr>step_times_ms := step_times_ms s8 @ [elapsed_time_ms]\<rparr>
          in Inr (if has_aborted s9 then finish_aborted_step is_serial elapsed_time_ms s9
                  else s9)))))))"



section \<open>Predicates of the statements\<close>

text \<open>
  The region table is consistent for region \<open>r\<close>: \<open>heap_region_containing\<close> finds
  every address of \<open>r\<close>'s reserved range in \<open>r\<close>.
\<close>

definition region_table_finds :: "marker \<Rightarrow> nat \<Rightarrow> bool" where
  "region_table_finds s r =
     (\<forall>a. is_in_reserved (heap_regions s r) a \<longrightarrow> heap_region_containing s a = Some r)"

text \<open>
  What marking a referent for the worker that holds region \<open>r\<close> leaves alone: the
  worker's region and bitmap bindings, the objects, every region's fields but the alive
  bitmap, the alive bitmaps of the other regions and the live-word counters of the
  other regions.
\<close>

definition marking_frame :: "nat \<Rightarrow> marker \<Rightarrow> marker \<Rightarrow> bool" where
  "marking_frame r s s' =
     (curr_region s' = curr_region s \<and> task_alive_bitmap s' = task_alive_bitmap s \<and>
      worker_id s' = worker_id s \<and> objs s' = objs s \<and>
      heap_max_regions s' = heap_max_regions s \<and>
      (\<forall>i. (heap_regions s' i)\<lparr>alive_bitmap := {}\<rparr> = (heap_regions s i)\<lparr>alive_bitmap := {}\<rparr>) \<and>
      (\<forall>i. i \<noteq> r \<longrightarrow> alive_bitmap (heap_regions s' i) = alive_bitmap (heap_regions s i)) \<and>
      (\<forall>i. i \<noteq> r \<longrightarrow> mark_stats_cache s' i = mark_stats_cache s i))"

text \<open>
  What no part of the marking step between its first and its last lines does, whether
  it returns or fails: it does not fail the assertion of the total drain
  (\<open>LocalQueueNotDrained\<close>), and it leaves the deques of the other workers, the
  terminator, the step history, the count of calls, the start time and the environment
  as they are.
\<close>

definition quiet :: "marker \<Rightarrow> failure + marker \<Rightarrow> bool" where
  "quiet s m =
     (case m of
        Inl e \<Rightarrow> e \<noteq> LocalQueueNotDrained
      | Inr s' \<Rightarrow> cm_other_task_queues s' = cm_other_task_queues s \<and>
                 cm_terminator_offered s' = cm_terminator_offered s \<and>
                 step_times_ms s' = step_times_ms s \<and> calls s' = calls s \<and>
                 start_time_ms s' = start_time_ms s \<and> env s' = env s)"

definition quiet_pair :: "marker \<Rightarrow> failure + ('a \<times> marker) \<Rightarrow> bool" where
  "quiet_pair s m = quiet s (case m of Inl e \<Rightarrow> Inl e | Inr (x, s') \<Rightarrow> Inr s')"

section \<open>Chains of collection-set regions\<close>

text \<open>
  The collection set is the chain of regions that \<open>mem_server_cset_next\<close> links:
  \<open>is_cset_chain s p c\<close> says that following the links from the region pointer \<open>p\<close>
  visits exactly the regions \<open>c\<close>, in this order, and then reaches \<open>NULL\<close>.
\<close>

fun is_cset_chain :: "marker \<Rightarrow> nat option \<Rightarrow> nat list \<Rightarrow> bool" where
  "is_cset_chain s p [] = (p = None)"
| "is_cset_chain s p (r # rs) =
     (p = Some r \<and> is_cset_chain s (mem_server_cset_next (heap_regions s r)) rs)"

text \<open>
  A well-formed collection set \<open>c\<close>: no region occurs twice (the chain has no cycle),
  the bottom of each of its regions lies in that region, and \<open>finger\<close> is \<open>NULL\<close> or
  the bottom of one of its regions.
\<close>

definition cset_wf :: "marker \<Rightarrow> nat list \<Rightarrow> bool" where
  "cset_wf s c =
     (distinct c \<and> is_cset_chain s (case c of [] \<Rightarrow> None | r # rs \<Rightarrow> Some r) c \<and>
      (\<forall>r \<in> set c. heap_region_containing s (bottom (heap_regions s r)) = Some r) \<and>
      (cm_finger s = None \<or> (\<exists>r \<in> set c. cm_finger s = Some (bottom (heap_regions s r)))))"

text \<open>
  The position of a finger value in the chain: the number of regions before the one
  it points to, and the length of the chain for \<open>NULL\<close>.
\<close>

definition chain_position :: "marker \<Rightarrow> nat list \<Rightarrow> HeapWord option \<Rightarrow> nat" where
  "chain_position s c fo =
     (case fo of None \<Rightarrow> length c
      | Some a \<Rightarrow> length (takeWhile (\<lambda>r. bottom (heap_regions s r) \<noteq> a) c))"

text \<open>
  \<open>k\<close> calls of \<open>claim_region\<close> one after the other, by whichever workers; the
  result lists the value of \<open>finger\<close> observed after each call.
\<close>

fun claim_regions :: "nat \<Rightarrow> marker \<Rightarrow> failure + (HeapWord option list \<times> marker)" where
  "claim_regions 0 s = Inr ([], s)"
| "claim_regions (Suc k) s =
     thenE (claim_region s) (\<lambda>(r, s1).
       thenE (claim_regions k s1) (\<lambda>(obs, s2). Inr (cm_finger s1 # obs, s2)))"

section \<open>Example states\<close>

text \<open>
  A heap of three regions of 100 words. Region 1 (bottom 200) holds 50 words below
  NTAMS and is the head of the collection set; its successor is region 0 (bottom 100),
  which is empty and ends the chain.
\<close>

definition demo_region :: "HeapWord \<Rightarrow> HeapWord \<Rightarrow> nat option \<Rightarrow> HeapRegion" where
  "demo_region b ntams nxt =
     \<lparr>bottom = b, hr_top = ntams, hr_end = b + 100, next_top_at_mark_start = ntams,
      region_tag = OldRegion, alive_bitmap = {},
      target_obj_queue = \<lparr>toq_elems = [], toq_max_elems = 4, toq_overflow = []\<rparr>,
      mem_server_cset_next = nxt\<rparr>"

definition demo_marker :: marker where
  "demo_marker =
     \<lparr>cm_finger = Some 200,
      cm_has_overflown = False, cm_has_aborted = False, cm_concurrent = True,
      cm_global_mark_stack =
        \<lparr>chunk_list = [], free_list = [], hwm = 0, chunk_capacity = 1, max_chunk_capacity = 2,
         chunks_in_chunk_list = 0\<rparr>,
      cm_region_mark_stats = (\<lambda>r. 0),
      cm_other_task_queues = [],
      cm_terminator_offered = 0, cm_first_barrier_entered = 0, cm_second_barrier_entered = 0,
      cm_heap_start = 100,
      heap_regions = (\<lambda>i. if i = 0 then demo_region 100 100 None
                           else if i = 1 then demo_region 200 250 (Some 0)
                           else demo_region (100 * (i + 1)) (100 * (i + 1)) None),
      heap_max_regions = 3,
      worker_id = 0, curr_region = None, task_alive_bitmap = None, task_finger = None,
      region_limit = None,
      has_aborted = False, has_timed_out = False, draining_satb_buffers = False,
      words_scanned = 0, words_scanned_limit = 0, real_words_scanned_limit = 0,
      refs_reached = 0, refs_reached_limit = 0, real_refs_reached_limit = 0,
      start_time_ms = 0, time_target_ms = 10, calls = 0,
      semeru_task_queue = \<lparr>tq_elems = [], tq_max_elems = 2\<rparr>,
      mark_stats_cache = (\<lambda>r. 0),
      cm_oop_closure_set = False, step_times_ms = [], marking_step_diffs_ms = [],
      vtime_reads = 0,
      objs = \<lparr>obj_size = (\<lambda>a. 2), obj_is_typeArray = (\<lambda>a. False),
              obj_should_be_sliced = (\<lambda>a. False), obj_ref_fields = (\<lambda>a. []),
              oop_load = (\<lambda>a. None)\<rparr>,
      env = \<lparr>elapsed_vtime_ms = (\<lambda>n. real n), sts_should_yield = False,
             satb_process_completed_buffers = False,
             predictor_get_new_prediction = (\<lambda>ds. 0), mmap_succeeds = True,
             words_scanned_period = 12288, refs_reached_period = 1024,
             GCDrainStackTargetSize = 64\<rparr>\<rparr>"

text \<open>
  The local deque is full, with two entries; the overflow stack has room for one chunk.
\<close>

definition demo_full :: marker where
  "demo_full =
     demo_marker\<lparr>semeru_task_queue := \<lparr>tq_elems = [ObjEntry 220, ObjEntry 210], tq_max_elems = 2\<rparr>\<rparr>"

text \<open>
  The same full deque, while the overflow stack, of capacity one chunk, has its one
  chunk in use and none free.
\<close>

definition demo_overflow :: marker where
  "demo_overflow =
     demo_full\<lparr>cm_global_mark_stack :=
       \<lparr>chunk_list = [ObjEntry 230 # replicate (EntriesPerChunk - 1) NullEntry], free_list = [],
        hwm = 1, chunk_capacity = 1, max_chunk_capacity = 1, chunks_in_chunk_list = 1\<rparr>\<rparr>"

text \<open>
  The worker holds region 1. The object at 210 has three reference fields: two hold the
  object at 220, of 7 words, below NTAMS; the third holds the object at 260, above
  NTAMS.
\<close>

definition demo_scan :: marker where
  "demo_scan =
     demo_marker
       \<lparr>curr_region := Some 1, task_alive_bitmap := Some 1, cm_finger := None,
        objs := \<lparr>obj_size = (\<lambda>a. if a = 220 then 7 else 2), obj_is_typeArray = (\<lambda>a. False),
                 obj_should_be_sliced = (\<lambda>a. False),
                 obj_ref_fields = (\<lambda>a. if a = 210 then [211, 212, 213] else []),
                 oop_load = (\<lambda>p. if p = 211 \<or> p = 212 then Some 220
                                  else if p = 213 then Some 260 else None)\<rparr>\<rparr>"





text \<open>The worker of \<open>demo_scan\<close> with the object at 210 on its deque.\<close>

definition demo_drain :: marker where
  "demo_drain = demo_scan\<lparr>semeru_task_queue := \<lparr>tq_elems = [ObjEntry 210], tq_max_elems = 2\<rparr>\<rparr>"

text \<open>
  Two lists in one store, every region \<open>r\<close> having index \<open>r\<close>: the regions 2, 5, 9
  and the regions 1, 7, 10; and the store and the list expected after merging the
  second into the first.
\<close>

definition demo_node :: "nat \<Rightarrow> region_ref option \<Rightarrow> region_ref option \<Rightarrow> SemeruHeapRegion" where
  "demo_node i p n = \<lparr>hrm_index = i, hr_next = n, hr_prev = p\<rparr>"

definition demo_links :: region_store where
  "demo_links r =
     (if r = 2 then demo_node 2 None (Some 5)
      else if r = 5 then demo_node 5 (Some 2) (Some 9)
      else if r = 9 then demo_node 9 (Some 5) None
      else if r = 1 then demo_node 1 None (Some 7)
      else if r = 7 then demo_node 7 (Some 1) (Some 10)
      else if r = 10 then demo_node 10 (Some 7) None
      else demo_node r None None)"

definition demo_to_list :: FreeSemeruRegionList where
  "demo_to_list = \<lparr>rl_length = 3, rl_head = Some 2, rl_tail = Some 9, rl_last = None\<rparr>"

definition demo_from_list :: FreeSemeruRegionList where
  "demo_from_list = \<lparr>rl_length = 3, rl_head = Some 1, rl_tail = Some 10, rl_last = None\<rparr>"

definition demo_merged_links :: region_store where
  "demo_merged_links r =
     (if r = 1 then demo_node 1 None (Some 2)
      else if r = 2 then demo_node 2 (Some 1) (Some 5)
      else if r = 5 then demo_node 5 (Some 2) (Some 7)
      else if r = 7 then demo_node 7 (Some 5) (Some 9)
      else if r = 9 then demo_node 9 (Some 7) (Some 10)
      else if r = 10 then demo_node 10 (Some 9) None
      else demo_node r None None)"

definition demo_merged_list :: FreeSemeruRegionList where
  "demo_merged_list = \<lparr>rl_length = 6, rl_head = Some 1, rl_tail = Some 10, rl_last = None\<rparr>"

section \<open>Theorems\<close>

text \<open>
  C10. \<open>add_ordered\<close> with an empty \<open>from_list\<close> returns at once: the store (every
  region's pointers), this list's head, tail, length and last-insertion hint, and
  \<open>from_list\<close> itself are all unchanged, whatever the loop budget.
\<close>

theorem add_ordered_empty_from_list_noop:
  "rl_is_empty from_list \<Longrightarrow> add_ordered fuel h this from_list = Returns (h, this, from_list)"
  by (simp add: add_ordered_def)

theorem add_ordered_empty_from_list_noop_witness:
  "rl_is_empty \<lparr>rl_length = 0, rl_head = None, rl_tail = None, rl_last = None\<rparr> \<and>
   add_ordered 0 (\<lambda>r. \<lparr>hrm_index = r, hr_next = None, hr_prev = None\<rparr>)
     \<lparr>rl_length = 1, rl_head = Some 4, rl_tail = Some 4, rl_last = Some 4\<rparr>
     \<lparr>rl_length = 0, rl_head = None, rl_tail = None, rl_last = None\<rparr> =
   Returns (\<lambda>r. \<lparr>hrm_index = r, hr_next = None, hr_prev = None\<rparr>,
     \<lparr>rl_length = 1, rl_head = Some 4, rl_tail = Some 4, rl_last = Some 4\<rparr>,
     \<lparr>rl_length = 0, rl_head = None, rl_tail = None, rl_last = None\<rparr>)"
proof -
  have e: "rl_is_empty \<lparr>rl_length = 0, rl_head = None, rl_tail = None, rl_last = None\<rparr>"
    by (simp add: rl_is_empty_def)
  show ?thesis
    using e add_ordered_empty_from_list_noop [OF e] by simp
qed

subsection \<open>The ordered merge\<close>

lemma first_of_simps [simp]:
  "first_of [] d = d" "first_of (r # rs) d = Some r"
  by (simp_all add: first_of_def)

lemma last_of_simps [simp]:
  "last_of [] d = d" "last_of (xs @ [x]) d = Some x"
  by (simp_all add: last_of_def)

lemma first_of_append: "first_of (xs @ ys) d = first_of xs (first_of ys d)"
  by (cases xs) simp_all

lemma last_of_Cons: "last_of (x # xs) d = last_of xs (Some x)"
  by (simp add: last_of_def)

lemma last_of_append: "last_of (xs @ ys) d = last_of ys (last_of xs d)"
  by (simp add: last_of_def)

lemma dll_seg_append:
  "dll_seg h pv (xs @ ys) nx =
     (dll_seg h pv xs (first_of ys nx) \<and> dll_seg h (last_of xs pv) ys nx)"
proof (induction xs arbitrary: pv)
  case Nil then show ?case by simp
next
  case (Cons x xs)
  show ?case
    by (simp add: Cons.IH first_of_append last_of_Cons)
qed

lemma index_set_next [simp]: "hrm_index (set_next h r n x) = hrm_index (h x)"
  by (simp add: set_next_def)

lemma index_set_prev [simp]: "hrm_index (set_prev h r p x) = hrm_index (h x)"
  by (simp add: set_prev_def)

lemma dll_seg_set_next_frame:
  "r \<notin> set rs \<Longrightarrow> dll_seg (set_next h r n) pv rs nx = dll_seg h pv rs nx"
  by (induction rs arbitrary: pv) (auto simp: set_next_def)

lemma dll_seg_set_prev_frame:
  "r \<notin> set rs \<Longrightarrow> dll_seg (set_prev h r p) pv rs nx = dll_seg h pv rs nx"
  by (induction rs arbitrary: pv) (auto simp: set_prev_def)

lemma dll_seg_set_next_last:
  "dll_seg h pv (xs @ [x]) nx \<Longrightarrow> x \<notin> set xs \<Longrightarrow> dll_seg (set_next h x n) pv (xs @ [x]) n"
  by (simp add: dll_seg_append dll_seg_set_next_frame) (simp add: set_next_def)

lemma dll_seg_set_prev_first:
  "dll_seg h pv (x # xs) nx \<Longrightarrow> x \<notin> set xs \<Longrightarrow> dll_seg (set_prev h x p) p (x # xs) nx"
  by (simp add: dll_seg_set_prev_frame) (simp add: set_prev_def)

lemma advance_curr_to_result:
  assumes "dll_seg h pv post None"
    and "length (takeWhile (\<lambda>t. hrm_index (h t) < hrm_index (h f)) post) \<le> k"
  shows "advance_curr_to k h (first_of post None) f =
           Some (k - length (takeWhile (\<lambda>t. hrm_index (h t) < hrm_index (h f)) post),
                 first_of (dropWhile (\<lambda>t. hrm_index (h t) < hrm_index (h f)) post) None)"
  using assms
proof (induction post arbitrary: pv k)
  case Nil then show ?case by simp
next
  case (Cons t post)
  show ?case
  proof (cases "hrm_index (h t) < hrm_index (h f)")
    case False
    then show ?thesis by (cases k) simp_all
  next
    case True
    with Cons.prems(2) obtain k' where k: "k = Suc k'" by (cases k) auto
    from Cons.prems(1) have nx: "hr_next (h t) = first_of post None" and
      seg: "dll_seg h (Some t) post None" by simp_all
    from Cons.prems(2) True k have
      "length (takeWhile (\<lambda>t. hrm_index (h t) < hrm_index (h f)) post) \<le> k'" by simp
    from Cons.IH[OF seg this] True k nx show ?thesis by simp
  qed
qed

lemma fields_set_next [simp]:
  "hr_next (set_next h r n x) = (if x = r then n else hr_next (h x))"
  "hr_prev (set_next h r n x) = hr_prev (h x)"
  by (simp_all add: set_next_def)

lemma fields_set_prev [simp]:
  "hr_next (set_prev h r p x) = hr_next (h x)"
  "hr_prev (set_prev h r p x) = (if x = r then p else hr_prev (h x))"
  by (simp_all add: set_prev_def)

lemma link_from_tail:
  "rl_tail l = Some tail \<Longrightarrow>
   link_from h l None f = Returns (set_prev (set_next h tail (Some f)) f (Some tail), l, None)"
  by (simp add: link_from_def)

lemma link_from_before:
  "f \<noteq> t \<Longrightarrow>
   link_from h l (Some t) f =
     Returns
       (set_prev
          (case hr_prev (h t) of
             None \<Rightarrow> set_prev (set_next h f (Some t)) f (hr_prev (h t))
           | Some p \<Rightarrow> set_next (set_prev (set_next h f (Some t)) f (hr_prev (h t))) p (Some f))
          t (Some f),
        case hr_prev (h t) of None \<Rightarrow> l\<lparr>rl_head := Some f\<rparr> | Some p \<Rightarrow> l,
        hr_next (h f))"
  by (simp add: link_from_def Let_def split: option.splits)

lemma sorted_last_max:
  assumes "sorted_wrt (<) (map g rs)" "x \<in> set rs" "\<forall>r \<in> set rs. (g r :: nat) \<le> g x"
  shows "last rs = x"
proof -
  from assms(2) have ne: "rs \<noteq> []" by auto
  then have l: "last rs \<in> set rs" by simp
  from assms(2) obtain i where i: "i < length rs" "rs ! i = x" by (auto simp: in_set_conv_nth)
  show ?thesis
  proof (rule ccontr)
    assume neq: "last rs \<noteq> x"
    have lastn: "last rs = rs ! (length rs - 1)" using ne by (simp add: last_conv_nth)
    with neq i have "i \<noteq> length rs - 1" by auto
    with i have lt: "i < length rs - 1" by simp
    from assms(1) have "\<And>a b. a < b \<Longrightarrow> b < length rs \<Longrightarrow> g (rs ! a) < g (rs ! b)"
      by (simp add: sorted_wrt_iff_nth_less)
    from this[OF lt] ne have "g (rs ! i) < g (rs ! (length rs - 1))" by simp
    with i lastn assms(3) l show False by (metis not_less)
  qed
qed

lemma dll_seg_set_next_frameI:
  "dll_seg h pv rs nx \<Longrightarrow> r \<notin> set rs \<Longrightarrow> dll_seg (set_next h r n) pv rs nx"
  by (simp add: dll_seg_set_next_frame)

lemma dll_seg_set_prev_frameI:
  "dll_seg h pv rs nx \<Longrightarrow> r \<notin> set rs \<Longrightarrow> dll_seg (set_prev h r p) pv rs nx"
  by (simp add: dll_seg_set_prev_frame)

lemma first_of_append_nonempty: "xs \<noteq> [] \<Longrightarrow> first_of (xs @ ys) d = first_of xs d'"
  by (cases xs) simp_all

lemma last_of_None_in: "last_of xs None = Some p \<Longrightarrow> p \<in> set xs"
  by (cases "xs = []") (auto simp: last_of_def)

lemma dll_seg_insert:
  "dll_seg h None xs (Some f) \<Longrightarrow> dll_seg h (Some f) ys None \<Longrightarrow>
   hr_prev (h f) = last_of xs None \<Longrightarrow> hr_next (h f) = first_of ys None \<Longrightarrow>
   dll_seg h None ((xs @ [f]) @ ys) None"
  by (simp add: dll_seg_append[of h None "xs @ [f]" ys] dll_seg_append[of h None xs "[f]"]
        del: append_assoc)

lemma sorted_insert:
  fixes g :: "'a \<Rightarrow> nat"
  assumes "sorted_wrt (<) (map g (xs @ t # ys))" "\<forall>p \<in> set xs. g p < g f" "g f < g t"
  shows "sorted_wrt (<) (map g ((xs @ [f]) @ t # ys))"
proof -
  from assms(1) have "\<forall>y \<in> set ys. g t < g y" by (simp add: sorted_wrt_append)
  with assms(3) have "\<forall>y \<in> set ys. g f < g y" by (meson less_trans)
  with assms show ?thesis by (simp add: sorted_wrt_append)
qed

lemma snoc_distinct: "distinct (bl @ [x]) \<Longrightarrow> x \<notin> set bl"
  by simp

lemma merge_loop_inv:
  assumes seg: "dll_seg h None (pre @ post) None"
    and fseg: "dll_seg h pv fs None"
    and dist: "distinct (pre @ post @ fs)"
    and hd: "rl_head l = first_of (pre @ post) None"
    and tl: "rl_tail l = last_of (pre @ post) None"
    and ne: "pre @ post \<noteq> []"
    and sx: "sorted_wrt (<) (map (\<lambda>r. hrm_index (h r)) (pre @ post))"
    and sf: "sorted_wrt (<) (map (\<lambda>r. hrm_index (h r)) fs)"
    and lt: "\<forall>p \<in> set pre. \<forall>f \<in> set fs. hrm_index (h p) < hrm_index (h f)"
    and ties: "\<forall>t \<in> set post. \<forall>f \<in> set fs. hrm_index (h t) \<noteq> hrm_index (h f)"
    and fuel: "length post + length fs \<le> fuel"
  shows "\<exists>h' l' rs.
           merge_loop fuel h l (first_of post None) (first_of fs None) = Returns (h', l') \<and>
           dll_seg h' None rs None \<and> distinct rs \<and> set rs = set (pre @ post @ fs) \<and>
           sorted_wrt (<) (map (\<lambda>r. hrm_index (h' r)) rs) \<and>
           (\<forall>r. hrm_index (h' r) = hrm_index (h r)) \<and>
           rl_head l' = first_of rs None \<and> rl_tail l' = rl_tail l \<and>
           rl_length l' = rl_length l \<and> rl_last l' = rl_last l"
  using assms
proof (induction fs arbitrary: h l pre post fuel pv)
  case Nil
  then show ?case by auto
next
  case (Cons f fs')
  let ?P = "\<lambda>t. hrm_index (h t) < hrm_index (h f)"
  let ?sk = "takeWhile ?P post"
  let ?po = "dropWhile ?P post"
  let ?pre1 = "pre @ ?sk"
  have split: "?sk @ ?po = post" by simp
  from Cons.prems(11) obtain k where k: "fuel = Suc k" by (cases fuel) auto
  have "length ?sk \<le> length post" by (rule length_takeWhile_le)
  with Cons.prems(11) k have len: "length ?sk \<le> k" by simp
  from Cons.prems(1) have pseg: "dll_seg h (last_of pre None) post None"
    by (simp add: dll_seg_append)
  have adv: "advance_curr_to k h (first_of post None) f =
               Some (k - length ?sk, first_of ?po None)"
    by (rule advance_curr_to_result[OF pseg len])
  have pre1_lt: "\<forall>p \<in> set ?pre1. hrm_index (h p) < hrm_index (h f)"
    using Cons.prems(9) by (auto dest: set_takeWhileD)
  have f_lt: "\<forall>g \<in> set fs'. hrm_index (h f) < hrm_index (h g)"
    using Cons.prems(8) by simp
  have all: "pre @ post = ?pre1 @ ?po" by simp
  from Cons.prems(3) have f_new: "f \<notin> set pre" "f \<notin> set post" "f \<notin> set fs'"
    and dfs: "distinct fs'" and dxs: "distinct (pre @ post)"
    and xf: "set (pre @ post) \<inter> set fs' = {}"
    by auto
  from Cons.prems(2) have next_f: "hr_next (h f) = first_of fs' None"
    and fseg': "dll_seg h (Some f) fs' None" by simp_all
  show ?case
  proof (cases ?po)
    case Nil
    with split have sk: "?sk = post" by simp
    from Cons.prems(6) obtain bl tail where bt: "pre @ post = bl @ [tail]"
      by (metis append_butlast_last_id)
    with Cons.prems(5) have tail: "rl_tail l = Some tail" by simp
    from bt dxs have tail_nb: "tail \<notin> set bl" by (metis snoc_distinct)
    have tail_x: "tail \<in> set (pre @ post)" using bt by simp
    then have tail_nf: "tail \<noteq> f" "tail \<notin> set fs'" using f_new xf by auto
    let ?h2 = "set_prev (set_next h tail (Some f)) f (Some tail)"
    have run: "merge_loop fuel h l (first_of post None) (first_of (f # fs') None) = Returns (?h2, l)"
      using adv Nil k link_from_tail[OF tail] by simp
    have a: "dll_seg ?h2 None (pre @ post) (Some f)"
    proof -
      from Cons.prems(1) bt have "dll_seg h None (bl @ [tail]) None" by simp
      then have "dll_seg (set_next h tail (Some f)) None (bl @ [tail]) (Some f)"
        using tail_nb by (rule dll_seg_set_next_last)
      moreover have "f \<notin> set (bl @ [tail])" using f_new bt by (metis Un_iff set_append)
      ultimately have "dll_seg ?h2 None (bl @ [tail]) (Some f)"
        by (rule dll_seg_set_prev_frameI)
      then show ?thesis using bt by simp
    qed
    have b: "dll_seg ?h2 (Some tail) (f # fs') None"
    proof -
      from tail_nf have "tail \<notin> set (f # fs')" by simp
      with Cons.prems(2) have "dll_seg (set_next h tail (Some f)) pv (f # fs') None"
        by (rule dll_seg_set_next_frameI)
      then show ?thesis using f_new(3) by (rule dll_seg_set_prev_first)
    qed
    have lastx: "last_of (pre @ post) None = Some tail" using bt by simp
    have seg2: "dll_seg ?h2 None ((pre @ post) @ f # fs') None"
      using a b lastx by (simp add: dll_seg_append del: dll_seg.simps append_assoc)
    have x_lt: "\<forall>x \<in> set (pre @ post). hrm_index (h x) < hrm_index (h f)"
      using pre1_lt sk by simp
    have x_lt': "\<forall>x \<in> set (pre @ post). \<forall>g \<in> set fs'. hrm_index (h x) < hrm_index (h g)"
      using x_lt f_lt by (meson less_trans)
    have sorted2: "sorted_wrt (<) (map (\<lambda>r. hrm_index (?h2 r)) ((pre @ post) @ f # fs'))"
      using Cons.prems(7,8) x_lt f_lt x_lt'
      by (auto simp: sorted_wrt_append simp del: append_assoc)
    have hd2: "rl_head l = first_of ((pre @ post) @ f # fs') None"
      using Cons.prems(4) first_of_append_nonempty[OF Cons.prems(6), of "f # fs'" None None]
      by simp
    have dist2: "distinct ((pre @ post) @ f # fs')" using Cons.prems(3) by simp
    have set2: "set ((pre @ post) @ f # fs') = set (pre @ post @ f # fs')" by simp
    have idx2: "\<forall>r. hrm_index (?h2 r) = hrm_index (h r)" by simp
    show ?thesis
      apply (rule exI[of _ ?h2], rule exI[of _ l], rule exI[of _ "(pre @ post) @ f # fs'"])
      using run seg2 sorted2 hd2 dist2 set2 idx2
      by blast
  next
    case (Cons t po')
    have post_eq: "post = ?sk @ t # po'" using split Cons by simp
    then have t_post: "t \<in> set post" by (metis in_set_conv_decomp)
    have "\<not> ?P t" using Cons by (metis hd_dropWhile list.distinct(1) list.sel(1))
    moreover have "hrm_index (h t) \<noteq> hrm_index (h f)" using Cons.prems(10) t_post by simp
    ultimately have f_t: "hrm_index (h f) < hrm_index (h t)" by simp
    have xs_eq: "pre @ post = ?pre1 @ t # po'" using post_eq by (metis append_assoc)
    from dxs xs_eq have d1: "distinct (?pre1 @ t # po')" by metis
    then have t_np: "t \<notin> set ?pre1" "t \<notin> set po'" and dpre1: "distinct ?pre1"
      and pre1_po: "set ?pre1 \<inter> set (t # po') = {}" by auto
    have pre1_sub: "set ?pre1 \<subseteq> set (pre @ post)" "set (t # po') \<subseteq> set (pre @ post)"
      using xs_eq by (metis Un_upper1 set_append, metis Un_upper2 set_append)
    have f_np: "f \<notin> set ?pre1" "f \<notin> set (t # po')" "f \<noteq> t"
      using f_new pre1_sub by auto
    have t_nf: "t \<notin> set fs'" using xf pre1_sub by auto
    have "dll_seg h None (?pre1 @ t # po') None"
      by (rule subst[OF xs_eq, where P = "\<lambda>z. dll_seg h None z None"]) (rule Cons.prems(1))
    from this[THEN iffD1[OF dll_seg_append]]
    have segA: "dll_seg h None ?pre1 (Some t)" and segB: "dll_seg h (last_of ?pre1 None) (t # po') None"
      by simp_all
    from segB have prev_t: "hr_prev (h t) = last_of ?pre1 None" by simp
    let ?h2 = "set_prev (set_next h f (Some t)) f (hr_prev (h t))"
    let ?h3 = "case hr_prev (h t) of None \<Rightarrow> ?h2 | Some p \<Rightarrow> set_next ?h2 p (Some f)"
    let ?h4 = "set_prev ?h3 t (Some f)"
    let ?l' = "case hr_prev (h t) of None \<Rightarrow> l\<lparr>rl_head := Some f\<rparr> | Some p \<Rightarrow> l"
    have lf: "link_from h l (Some t) f = Returns (?h4, ?l', first_of fs' None)"
      using link_from_before[OF f_np(3), of h l] next_f by simp
    have step: "merge_loop fuel h l (first_of post None) (first_of (f # fs') None) =
                merge_loop (k - length ?sk) ?h4 ?l' (Some t) (first_of fs' None)"
      using adv Cons k lf by simp
    have idx4: "\<And>r. hrm_index (?h4 r) = hrm_index (h r)"
      by (simp split: option.splits)
    have A: "dll_seg ?h4 None ?pre1 (Some f)"
    proof (cases "?pre1 = []")
      case True then show ?thesis by simp
    next
      case False
      then obtain bl pl where bp: "?pre1 = bl @ [pl]" by (metis append_butlast_last_id)
      with prev_t have pt: "hr_prev (h t) = Some pl" by simp
      from bp dpre1 have pl_nb: "pl \<notin> set bl" by (metis snoc_distinct)
      from segA f_np(1) have "dll_seg ?h2 None ?pre1 (Some t)"
        by (intro dll_seg_set_next_frameI dll_seg_set_prev_frameI)
      then have "dll_seg ?h2 None (bl @ [pl]) (Some t)" using bp by simp
      then have "dll_seg (set_next ?h2 pl (Some f)) None (bl @ [pl]) (Some f)"
        using pl_nb by (rule dll_seg_set_next_last)
      then have "dll_seg ?h3 None ?pre1 (Some f)" using bp pt by simp
      then show ?thesis using t_np(1) by (rule dll_seg_set_prev_frameI)
    qed
    have pl_not: "\<And>p. hr_prev (h t) = Some p \<Longrightarrow> p \<in> set ?pre1"
      using prev_t last_of_None_in[of ?pre1] by metis
    have B: "dll_seg ?h4 (Some f) (t # po') None"
    proof -
      from segB f_np(2) have h2: "dll_seg ?h2 (last_of ?pre1 None) (t # po') None"
        by (intro dll_seg_set_next_frameI dll_seg_set_prev_frameI)
      have "dll_seg ?h3 (last_of ?pre1 None) (t # po') None"
      proof (cases "hr_prev (h t)")
        case None then show ?thesis using h2 by simp
      next
        case (Some p)
        with pl_not pre1_po have "p \<notin> set (t # po')" by blast
        with h2 have "dll_seg (set_next ?h2 p (Some f)) (last_of ?pre1 None) (t # po') None"
          by (rule dll_seg_set_next_frameI)
        then show ?thesis using Some by simp
      qed
      then show ?thesis using t_np(2) by (rule dll_seg_set_prev_first)
    qed
    have Fp: "hr_prev (?h4 f) = last_of ?pre1 None" "hr_next (?h4 f) = Some t"
      using f_np prev_t pl_not by (auto split: option.splits)
    have seg4: "dll_seg ?h4 None ((?pre1 @ [f]) @ t # po') None"
      by (rule dll_seg_insert[OF A B]) (simp_all only: Fp first_of_simps)
    have fseg4: "dll_seg ?h4 (Some f) fs' None"
    proof -
      have pn: "\<And>p. hr_prev (h t) = Some p \<Longrightarrow> p \<notin> set fs'"
        using pl_not pre1_sub xf by blast
      from fseg' f_new(3) have h2: "dll_seg ?h2 (Some f) fs' None"
        by (intro dll_seg_set_next_frameI dll_seg_set_prev_frameI)
      have "dll_seg ?h3 (Some f) fs' None"
      proof (cases "hr_prev (h t)")
        case None then show ?thesis using h2 by simp
      next
        case (Some p)
        with pn have "p \<notin> set fs'" by blast
        with h2 have "dll_seg (set_next ?h2 p (Some f)) (Some f) fs' None"
          by (rule dll_seg_set_next_frameI)
        then show ?thesis using Some by simp
      qed
      then show ?thesis using t_nf by (rule dll_seg_set_prev_frameI)
    qed
    have dist4: "distinct ((?pre1 @ [f]) @ (t # po') @ fs')"
      using d1 f_np f_new(3) dfs xf pre1_sub by auto
    have hd4: "rl_head ?l' = first_of ((?pre1 @ [f]) @ t # po') None"
    proof (cases "?pre1 = []")
      case True
      with prev_t show ?thesis by simp
    next
      case False
      then obtain a as where "?pre1 = a # as" by (cases ?pre1) auto
      moreover from this False prev_t obtain p where "hr_prev (h t) = Some p"
        by (auto simp: last_of_def)
      ultimately show ?thesis
        using Cons.prems(4) xs_eq by (simp add: first_of_append)
    qed
    have tl4: "rl_tail ?l' = last_of ((?pre1 @ [f]) @ t # po') None"
      using Cons.prems(5) xs_eq by (simp add: last_of_def split: option.splits)
    have sx4: "sorted_wrt (<) (map (\<lambda>r. hrm_index (?h4 r)) ((?pre1 @ [f]) @ t # po'))"
    proof -
      have s: "sorted_wrt (<) (map (\<lambda>r. hrm_index (h r)) (?pre1 @ t # po'))"
        by (rule subst[OF xs_eq, where P = "\<lambda>z. sorted_wrt (<) (map (\<lambda>r. hrm_index (h r)) z)"])
           (rule Cons.prems(7))
      have "sorted_wrt (<) (map (\<lambda>r. hrm_index (h r)) ((?pre1 @ [f]) @ t # po'))"
        using s pre1_lt f_t by (rule sorted_insert)
      then show ?thesis by (simp only: idx4)
    qed
    have sf4: "sorted_wrt (<) (map (\<lambda>r. hrm_index (?h4 r)) fs')"
      using Cons.prems(8) by (simp only: idx4) simp
    have lt4: "\<forall>p \<in> set (?pre1 @ [f]). \<forall>g \<in> set fs'. hrm_index (?h4 p) < hrm_index (?h4 g)"
    proof (intro ballI)
      fix p g assume p: "p \<in> set (?pre1 @ [f])" and g: "g \<in> set fs'"
      from p have "p \<in> set ?pre1 \<or> p = f" by auto
      then have "hrm_index (h p) < hrm_index (h g)"
      proof
        assume "p \<in> set ?pre1"
        with pre1_lt have "hrm_index (h p) < hrm_index (h f)" by blast
        also from f_lt g have "\<dots> < hrm_index (h g)" by blast
        finally show ?thesis .
      next
        assume "p = f" with f_lt g show ?thesis by blast
      qed
      then show "hrm_index (?h4 p) < hrm_index (?h4 g)" by (simp only: idx4)
    qed
    have ties4: "\<forall>x \<in> set (t # po'). \<forall>g \<in> set fs'. hrm_index (?h4 x) \<noteq> hrm_index (?h4 g)"
    proof (intro ballI)
      fix x g assume x: "x \<in> set (t # po')" and g: "g \<in> set fs'"
      from x pre1_sub(2) have "x \<in> set (pre @ post)" by blast
      then have "x \<in> set pre \<or> x \<in> set post" by simp
      then have "hrm_index (h x) \<noteq> hrm_index (h g)"
      proof
        assume "x \<in> set pre"
        with Cons.prems(9) g have "hrm_index (h x) < hrm_index (h g)" by simp
        then show ?thesis by simp
      next
        assume "x \<in> set post"
        with Cons.prems(10) g show ?thesis by simp
      qed
      then show "hrm_index (?h4 x) \<noteq> hrm_index (?h4 g)" by (simp only: idx4) simp
    qed
    have fuel4: "length (t # po') + length fs' \<le> k - length ?sk"
    proof -
      have "length post = length ?sk + length (t # po')" using post_eq
        by (metis length_append)
      with Cons.prems(11) k show ?thesis by simp
    qed
    have ne4: "(?pre1 @ [f]) @ t # po' \<noteq> []" by simp
    from Cons.IH[OF seg4 fseg4 dist4 hd4 tl4 ne4 sx4 sf4 lt4 ties4 fuel4]
    obtain h' l'' rs where
      r1: "merge_loop (k - length ?sk) ?h4 ?l' (first_of (t # po') None) (first_of fs' None) =
             Returns (h', l'')" and
      r2: "dll_seg h' None rs None" "distinct rs" and
      r3: "set rs = set ((?pre1 @ [f]) @ (t # po') @ fs')" and
      r4: "sorted_wrt (<) (map (\<lambda>r. hrm_index (h' r)) rs)" and
      r5: "\<forall>r. hrm_index (h' r) = hrm_index (?h4 r)" and
      r6: "rl_head l'' = first_of rs None" "rl_tail l'' = rl_tail ?l'"
          "rl_length l'' = rl_length ?l'" "rl_last l'' = rl_last ?l'"
      by blast
    have set_eq: "set ((?pre1 @ [f]) @ (t # po') @ fs') = set (pre @ post @ f # fs')"
    proof -
      have "set (pre @ post) = set ?pre1 \<union> set (t # po')" using xs_eq by (metis set_append)
      then show ?thesis by auto
    qed
    have l'_fields: "rl_tail ?l' = rl_tail l" "rl_length ?l' = rl_length l" "rl_last ?l' = rl_last l"
      by (simp_all split: option.splits)
    have g1: "merge_loop fuel h l (first_of post None) (first_of (f # fs') None) = Returns (h', l'')"
      using step r1 by (simp only: first_of_simps)
    have g3: "set rs = set (pre @ post @ f # fs')" using r3 set_eq by (rule trans)
    have g5: "\<forall>r. hrm_index (h' r) = hrm_index (h r)"
    proof
      fix r show "hrm_index (h' r) = hrm_index (h r)"
        using r5[rule_format, of r] idx4[of r] by (rule trans)
    qed
    have g6: "rl_tail l'' = rl_tail l" "rl_length l'' = rl_length l" "rl_last l'' = rl_last l"
      using r6(2) l'_fields(1) apply (rule trans)
      using r6(3) l'_fields(2) apply (rule trans)
      using r6(4) l'_fields(3) apply (rule trans)
      done
    have g4: "sorted_wrt (<) (map (\<lambda>r. hrm_index (h' r)) rs)" by (rule r4)
    show ?thesis
      using g1 r2 g3 g4 g5 r6(1) g6 by blast
  qed
qed

lemma sorted_le_last:
  fixes g :: "'a \<Rightarrow> nat"
  assumes "sorted_wrt (<) (map g xs)" "r \<in> set xs"
  shows "g r \<le> g (last xs)"
proof -
  from assms(2) have ne: "xs \<noteq> []" by auto
  then obtain bl where xs: "xs = bl @ [last xs]" by (metis append_butlast_last_id)
  have "sorted_wrt (<) (map g (bl @ [last xs]))"
    by (rule subst[OF xs, where P = "\<lambda>z. sorted_wrt (<) (map g z)"]) (rule assms(1))
  then have "\<forall>b \<in> set bl. g b < g (last xs)" by (simp add: sorted_wrt_append)
  moreover from assms(2) xs have "r \<in> set bl \<or> r = last xs"
    by (metis Un_iff empty_iff empty_set insert_iff list.simps(15) set_append)
  ultimately show ?thesis by auto
qed

lemma list_repr_last:
  "list_repr h l rs \<Longrightarrow> rs \<noteq> [] \<Longrightarrow> rl_tail l = Some (last rs) \<and> rl_head l = Some (hd rs)"
  by (cases rs) (auto simp: list_repr_def last_of_def)

lemma index_disjoint_nodes:
  "index_disjoint h ls ms \<Longrightarrow> set ls \<inter> set ms = {}"
  by (auto simp: index_disjoint_def)

lemma index_disjoint_ties:
  "index_disjoint h ls ms \<Longrightarrow> \<forall>t \<in> set ls. \<forall>f \<in> set ms. hrm_index (h t) \<noteq> hrm_index (h f)"
  by (auto simp: index_disjoint_def)

lemma add_ordered_both:
  assumes L: "list_repr h this ls" and M: "list_repr h from_list ms"
    and disj: "index_disjoint h ls ms" and lne: "ls \<noteq> []" and mne: "ms \<noteq> []"
  shows "\<exists>h' this' rs.
           add_ordered (length ls + length ms) h this from_list =
             Returns (h', this', rl_clear from_list) \<and>
           list_repr h' this' rs \<and> set rs = set ls \<union> set ms \<and>
           max_index_node h' rs (rl_tail this') \<and>
           (\<forall>r. hrm_index (h' r) = hrm_index (h r))"
proof -
  let ?g = "\<lambda>r. hrm_index (h r)"
  from L have l1: "dll_seg h None ([] @ ls) None" "rl_head this = first_of ([] @ ls) None"
      "rl_tail this = last_of ([] @ ls) None" "sorted_wrt (<) (map ?g ([] @ ls))"
      and llen: "rl_length this = length ls" and dl: "distinct ls"
    by (simp_all add: list_repr_def)
  from M have m1: "dll_seg h None ms None" "sorted_wrt (<) (map ?g ms)"
      and mlen: "rl_length from_list = length ms" and dm: "distinct ms"
    by (simp_all add: list_repr_def)
  have dist: "distinct ([] @ ls @ ms)"
    using dl dm index_disjoint_nodes[OF disj] by simp
  have ne: "[] @ ls \<noteq> []" using lne by simp
  have lt: "\<forall>p \<in> set []. \<forall>f \<in> set ms. ?g p < ?g f" by simp
  have fuel: "length ls + length ms \<le> length ls + length ms" by simp
  from merge_loop_inv[OF l1(1) m1(1) dist l1(2) l1(3) ne l1(4) m1(2) lt
      index_disjoint_ties[OF disj] fuel]
  obtain h' l' rs where
    run: "merge_loop (length ls + length ms) h this (first_of ls None) (first_of ms None) =
            Returns (h', l')" and
    seg: "dll_seg h' None rs None" and drs: "distinct rs" and
    srs: "set rs = set ([] @ ls @ ms)" and
    sorted: "sorted_wrt (<) (map (\<lambda>r. hrm_index (h' r)) rs)" and
    idx: "\<forall>r. hrm_index (h' r) = hrm_index (h r)" and
    hd: "rl_head l' = first_of rs None" and tl: "rl_tail l' = rl_tail this" and
    len: "rl_length l' = rl_length this" and "rl_last l' = rl_last this"
    by blast
  from list_repr_last[OF L lne] have lt_this: "rl_tail this = Some (last ls)"
    and hd_this: "rl_head this = first_of ls None" using l1(2) by simp_all
  from list_repr_last[OF M mne] have lt_from: "rl_tail from_list = Some (last ms)" by simp
  from M have hd_from: "rl_head from_list = first_of ms None" by (simp add: list_repr_def)
  let ?x = "if ?g (last ls) < ?g (last ms) then last ms else last ls"
  let ?this' = "(if ?g (last ls) < ?g (last ms) then l'\<lparr>rl_tail := rl_tail from_list\<rparr> else l')
                  \<lparr>rl_length := length ls + length ms\<rparr>"
  have x_in: "?x \<in> set rs" using srs lne mne by simp
  have x_max: "\<forall>r \<in> set rs. ?g r \<le> ?g ?x"
  proof
    fix r assume "r \<in> set rs"
    with srs have "r \<in> set ls \<or> r \<in> set ms" by simp
    then show "?g r \<le> ?g ?x"
    proof
      assume "r \<in> set ls"
      from sorted_le_last[OF _ this, of ?g] l1(4) have "?g r \<le> ?g (last ls)" by simp
      then show ?thesis by simp
    next
      assume "r \<in> set ms"
      from sorted_le_last[OF m1(2) this] have "?g r \<le> ?g (last ms)" .
      then show ?thesis by simp
    qed
  qed
  have sorted': "sorted_wrt (<) (map ?g rs)" using sorted idx by simp
  have last_rs: "last rs = ?x" using sorted' x_in x_max by (rule sorted_last_max)
  have rs_ne: "rs \<noteq> []" using x_in by auto
  have tail': "rl_tail ?this' = Some ?x" using tl lt_this lt_from by simp
  have lenrs: "length rs = length ls + length ms"
  proof -
    have "length rs = card (set rs)" using drs by (simp add: distinct_card)
    also have "\<dots> = card (set (ls @ ms))" using srs by simp
    also have "\<dots> = length (ls @ ms)" using dist by (simp only: append_Nil distinct_card)
    finally show ?thesis by simp
  qed
  have repr: "list_repr h' ?this' rs"
    using seg drs sorted hd tail' last_rs rs_ne lenrs
    by (simp add: list_repr_def last_of_def)
  have ne_this: "\<not> rl_is_empty this" "\<not> rl_is_empty from_list"
    using llen mlen lne mne by (simp_all add: rl_is_empty_def)
  have res: "add_ordered (length ls + length ms) h this from_list =
               Returns (h', ?this', rl_clear from_list)"
    using run ne_this hd_this hd_from tl lt_this lt_from idx len llen mlen
    by (simp add: add_ordered_def)
  have mx: "max_index_node h' rs (rl_tail ?this')"
    using tail' x_in x_max idx by (simp add: max_index_node_def)
  have srs': "set rs = set ls \<union> set ms" using srs by simp
  from res repr srs' mx idx show ?thesis by blast
qed

text \<open>
  C8. Let this list hold the regions \<open>ls\<close> and \<open>from_list\<close> the regions \<open>ms\<close>, each
  in strictly ascending index order, no index occurring in both. Then \<open>add_ordered\<close>
  returns, within a budget of \<open>|ls| + |ms|\<close> loop iterations (inner and outer loop
  together: one walk along both lists, not one search per inserted region). Afterwards
  this list holds regions \<open>rs\<close> that are exactly those of \<open>ls\<close> and \<open>ms\<close>, correctly
  linked and in strictly ascending index order; its length is \<open>|ls| + |ms|\<close>; its tail
  is the region of greatest index; \<open>from_list\<close> is empty; and no region's index has
  changed.
\<close>

theorem add_ordered_merges:
  assumes L: "list_repr h this ls" and M: "list_repr h from_list ms"
    and disj: "index_disjoint h ls ms"
  shows "\<exists>h' this' from' rs.
           add_ordered (length ls + length ms) h this from_list = Returns (h', this', from') \<and>
           list_repr h' this' rs \<and> list_repr h' from' [] \<and>
           set rs = set ls \<union> set ms \<and> rl_length this' = length ls + length ms \<and>
           max_index_node h' rs (rl_tail this') \<and>
           (\<forall>r. hrm_index (h' r) = hrm_index (h r))"
proof (cases "ms = []")
  case True
  with M have e: "rl_is_empty from_list" and r: "list_repr h from_list []"
    by (simp_all add: list_repr_def rl_is_empty_def)
  have run: "add_ordered (length ls + length ms) h this from_list = Returns (h, this, from_list)"
    using e by (simp add: add_ordered_def)
  have mx: "max_index_node h ls (rl_tail this)"
  proof (cases "ls = []")
    case True with L show ?thesis by (simp add: max_index_node_def list_repr_def)
  next
    case False
    from L have s: "sorted_wrt (<) (map (\<lambda>r. hrm_index (h r)) ls)" by (simp add: list_repr_def)
    from list_repr_last[OF L False] False sorted_le_last[OF s]
    show ?thesis by (simp add: max_index_node_def)
  qed
  have len: "rl_length this = length ls + length ms" using L True by (simp add: list_repr_def)
  have st: "set ls = set ls \<union> set ms" using True by simp
  from run L r st len mx show ?thesis by blast
next
  case mne: False
  have clr: "list_repr h' (rl_clear from_list) []" for h'
    by (simp add: list_repr_def rl_clear_def)
  show ?thesis
  proof (cases "ls = []")
    case True
    with L have e: "rl_is_empty this" and l0: "rl_length this = 0"
      by (simp_all add: list_repr_def rl_is_empty_def)
    from M mne have ne: "\<not> rl_is_empty from_list" by (simp add: list_repr_def rl_is_empty_def)
    let ?this' = "this\<lparr>rl_head := rl_head from_list, rl_tail := rl_tail from_list,
                       rl_length := rl_length this + rl_length from_list\<rparr>"
    have run: "add_ordered (length ls + length ms) h this from_list =
                 Returns (h, ?this', rl_clear from_list)"
      using e ne by (simp add: add_ordered_def)
    have repr: "list_repr h ?this' ms" using M l0 by (simp add: list_repr_def)
    from M have s: "sorted_wrt (<) (map (\<lambda>r. hrm_index (h r)) ms)" by (simp add: list_repr_def)
    have mx: "max_index_node h ms (rl_tail ?this')"
      using list_repr_last[OF M mne] mne sorted_le_last[OF s]
      by (simp add: max_index_node_def)
    have len: "rl_length ?this' = length ls + length ms"
      using True l0 M by (simp add: list_repr_def)
    have st: "set ms = set ls \<union> set ms" using True by simp
    from run repr clr[of h] st len mx show ?thesis by blast
  next
    case False
    from add_ordered_both[OF L M disj False mne] obtain h' this' rs where
      a: "add_ordered (length ls + length ms) h this from_list =
            Returns (h', this', rl_clear from_list)"
         "list_repr h' this' rs" "set rs = set ls \<union> set ms"
         "max_index_node h' rs (rl_tail this')" "\<forall>r. hrm_index (h' r) = hrm_index (h r)"
      by blast
    have dl: "distinct (ls @ ms)"
      using L M index_disjoint_nodes[OF disj] by (simp add: list_repr_def)
    have "length rs = card (set rs)" using a(2) by (simp add: list_repr_def distinct_card)
    also have "\<dots> = card (set (ls @ ms))" using a(3) by simp
    also have "\<dots> = length (ls @ ms)" using dl by (rule distinct_card)
    finally have "rl_length this' = length ls + length ms"
      using a(2) by (simp add: list_repr_def)
    with a clr[of h'] show ?thesis by blast
  qed
qed

lemma demo_lists_repr:
  "list_repr demo_links demo_to_list [2, 5, 9]"
  "list_repr demo_links demo_from_list [1, 7, 10]"
  "index_disjoint demo_links [2, 5, 9] [1, 7, 10]"
  by (simp_all add: list_repr_def index_disjoint_def demo_links_def demo_node_def
        demo_to_list_def demo_from_list_def last_of_def)

lemma demo_merge_run:
  "add_ordered (Suc (Suc (Suc (Suc (Suc (Suc 0)))))) demo_links demo_to_list demo_from_list =
     Returns (demo_merged_links, demo_merged_list, rl_clear demo_from_list)"
  by (simp add: add_ordered_def rl_is_empty_def demo_to_list_def demo_from_list_def
        link_from_def Let_def rl_clear_def demo_merged_list_def demo_links_def demo_node_def
        set_next_def set_prev_def fun_eq_iff demo_merged_links_def)

theorem add_ordered_merges_witness:
  "list_repr demo_links demo_to_list [2, 5, 9] \<and>
   list_repr demo_links demo_from_list [1, 7, 10] \<and>
   index_disjoint demo_links [2, 5, 9] [1, 7, 10] \<and>
   add_ordered 6 demo_links demo_to_list demo_from_list =
     Returns (demo_merged_links, demo_merged_list, rl_clear demo_from_list) \<and>
   list_repr demo_merged_links demo_merged_list [1, 2, 5, 7, 9, 10] \<and>
   list_repr demo_merged_links (rl_clear demo_from_list) [] \<and>
   rl_length demo_merged_list = 6 \<and>
   max_index_node demo_merged_links [1, 2, 5, 7, 9, 10] (rl_tail demo_merged_list)"
proof -
  from add_ordered_merges[OF demo_lists_repr] obtain h' this' from' rs where
    run: "add_ordered (length [2, 5, 9 :: nat] + length [1, 7, 10 :: nat]) demo_links
            demo_to_list demo_from_list = Returns (h', this', from')" and
    r: "list_repr h' this' rs" "list_repr h' from' []" "set rs = set [2, 5, 9] \<union> set [1, 7, 10]"
       "rl_length this' = length [2, 5, 9 :: nat] + length [1, 7, 10 :: nat]"
       "max_index_node h' rs (rl_tail this')"
    by blast
  have six: "length [2, 5, 9 :: nat] + length [1, 7, 10 :: nat] = 6"
    "Suc (Suc (Suc (Suc (Suc (Suc 0))))) = 6" by simp_all
  from run demo_merge_run have eq: "h' = demo_merged_links" "this' = demo_merged_list"
      "from' = rl_clear demo_from_list"
    by (simp_all only: six outcome.inject prod.inject)
  note run6 = demo_merge_run[unfolded six(2)]
  have rs: "list_repr demo_merged_links demo_merged_list [1, 2, 5, 7, 9, 10]"
    by (simp add: list_repr_def demo_merged_links_def demo_merged_list_def demo_node_def
          last_of_def)
  have mx: "max_index_node demo_merged_links [1, 2, 5, 7, 9, 10] (rl_tail demo_merged_list)"
    by (simp add: max_index_node_def demo_merged_links_def demo_merged_list_def demo_node_def)
  from r eq six have "list_repr demo_merged_links (rl_clear demo_from_list) []"
    "rl_length demo_merged_list = 6" by simp_all
  with demo_lists_repr run6 rs mx show ?thesis by simp
qed

subsection \<open>The region-claim cursor\<close>

lemma demo_region_containing:
  "heap_region_containing demo_marker 200 = Some 1"
  "heap_region_containing demo_marker 100 = Some 0"
  by (simp_all add: heap_region_containing_def demo_marker_def demo_region_def is_in_reserved_def
        upt_rec)

text \<open>
  C2. A call of \<open>claim_region\<close> that finds \<open>finger\<close> \<open>NULL\<close> returns \<open>NULL\<close> and
  leaves the state as it is. Otherwise, when the compare-and-swap succeeds (the value
  read first, \<open>old_finger\<close>, is still in \<open>finger\<close>), \<open>finger\<close> becomes the bottom of
  the next collection-set region, or \<open>NULL\<close> when the claimed region is the last, and
  the call returns the claimed region exactly when its NTAMS is above its bottom, and
  \<open>NULL\<close> when NTAMS equals bottom.
\<close>

theorem claim_region_from_result:
  "(cm_finger s = None \<longrightarrow> claim_region_from old_finger s = Inr (None, s)) \<and>
   (cm_finger s = Some f \<and> old_finger = Some f \<and> heap_region_containing s f = Some r \<and>
    bottom (heap_regions s r) \<le> next_top_at_mark_start (heap_regions s r) \<longrightarrow>
      claim_region_from old_finger s =
        Inr (if bottom (heap_regions s r) < next_top_at_mark_start (heap_regions s r)
             then Some r else None,
             s\<lparr>cm_finger := (case mem_server_cset_next (heap_regions s r) of
                                None \<Rightarrow> None
                              | Some n \<Rightarrow> Some (bottom (heap_regions s n)))\<rparr>))"
  by (auto simp: claim_region_from_def Let_def)

theorem claim_region_from_result_witness:
  "claim_region demo_marker = Inr (Some 1, demo_marker\<lparr>cm_finger := Some 100\<rparr>) \<and>
   claim_region (demo_marker\<lparr>cm_finger := Some 100\<rparr>) = Inr (None, demo_marker\<lparr>cm_finger := None\<rparr>) \<and>
   claim_region (demo_marker\<lparr>cm_finger := None\<rparr>) = Inr (None, demo_marker\<lparr>cm_finger := None\<rparr>)"
proof -
  have h1: "heap_region_containing (demo_marker\<lparr>cm_finger := Some 100\<rparr>) 100 = Some 0"
    using demo_region_containing(2) by (simp add: heap_region_containing_def)
  have a: "claim_region demo_marker = Inr (Some 1, demo_marker\<lparr>cm_finger := Some 100\<rparr>)"
    using claim_region_from_result [of demo_marker "Some 200" 200 1] demo_region_containing(1)
    by (simp add: claim_region_def demo_marker_def demo_region_def)
  have b: "claim_region (demo_marker\<lparr>cm_finger := Some 100\<rparr>) =
             Inr (None, demo_marker\<lparr>cm_finger := None\<rparr>)"
    using claim_region_from_result [of "demo_marker\<lparr>cm_finger := Some 100\<rparr>" "Some 100" 100 0] h1
    by (simp add: claim_region_def demo_marker_def demo_region_def)
  have c: "claim_region (demo_marker\<lparr>cm_finger := None\<rparr>) = Inr (None, demo_marker\<lparr>cm_finger := None\<rparr>)"
    using claim_region_from_result [of "demo_marker\<lparr>cm_finger := None\<rparr>" None]
    by (simp add: claim_region_def)
  from a b c show ?thesis by simp
qed

lemma chain_next:
  "is_cset_chain s start c \<Longrightarrow> p < length c \<Longrightarrow>
   mem_server_cset_next (heap_regions s (c ! p)) = (if Suc p < length c then Some (c ! Suc p) else None)"
proof (induction c arbitrary: start p)
  case Nil then show ?case by simp
next
  case (Cons r rs)
  show ?case
  proof (cases p)
    case 0
    with Cons.prems show ?thesis by (cases rs) auto
  next
    case (Suc q)
    with Cons show ?thesis by auto
  qed
qed

lemma bottoms_inj:
  assumes "\<forall>r \<in> set c. heap_region_containing s (bottom (heap_regions s r)) = Some r"
  shows "inj_on (\<lambda>r. bottom (heap_regions s r)) (set c)"
proof (rule inj_onI)
  fix x y assume "x \<in> set c" "y \<in> set c" "bottom (heap_regions s x) = bottom (heap_regions s y)"
  with assms have "Some x = Some y" by metis
  then show "x = y" by simp
qed

lemma position_nth:
  assumes "distinct c" "inj_on (\<lambda>r. bottom (heap_regions s r)) (set c)" "p < length c"
  shows "chain_position s c (Some (bottom (heap_regions s (c ! p)))) = p"
proof -
  have "takeWhile (\<lambda>r. bottom (heap_regions s r) \<noteq> bottom (heap_regions s (c ! p))) c = take p c"
  proof (rule takeWhile_eq_take_P_nth)
    fix i assume "i < p" "i < length c"
    with assms have "c ! i \<noteq> c ! p" by (simp add: nth_eq_iff_index_eq)
    with assms \<open>i < length c\<close> show "bottom (heap_regions s (c ! i)) \<noteq> bottom (heap_regions s (c ! p))"
      by (auto dest: inj_onD)
  next
    show "\<not> bottom (heap_regions s (c ! p)) \<noteq> bottom (heap_regions s (c ! p))" by simp
  qed
  with assms show ?thesis by (simp add: chain_position_def)
qed

lemma claim_region_step:
  assumes wf: "cset_wf s c" and ok: "claim_region s = Inr (res, s')"
  shows "cset_wf s' c \<and> heap_regions s' = heap_regions s \<and>
         chain_position s c (cm_finger s') = min (length c) (Suc (chain_position s c (cm_finger s)))"
proof (cases "cm_finger s")
  case None
  with ok have "s' = s" by (simp add: claim_region_def claim_region_from_def)
  with None wf show ?thesis by (simp add: chain_position_def)
next
  case (Some f)
  with wf obtain r where r: "r \<in> set c" "f = bottom (heap_regions s r)"
    by (auto simp: cset_wf_def)
  then obtain p where p: "p < length c" "c ! p = r" by (auto simp: in_set_conv_nth)
  from wf have d: "distinct c" and
    inj: "inj_on (\<lambda>r. bottom (heap_regions s r)) (set c)" and
    hrc: "\<forall>r \<in> set c. heap_region_containing s (bottom (heap_regions s r)) = Some r"
    by (auto simp: cset_wf_def intro: bottoms_inj)
  from wf obtain start where ch: "is_cset_chain s start c" by (auto simp: cset_wf_def)
  have nx: "mem_server_cset_next (heap_regions s r) = (if Suc p < length c then Some (c ! Suc p) else None)"
    using chain_next[OF ch p(1)] p(2) by simp
  have pos: "chain_position s c (cm_finger s) = p"
    using position_nth[OF d inj p(1)] Some r p by simp
  from hrc r have h: "heap_region_containing s f = Some r" by simp
  have fin: "cm_finger s' = (if Suc p < length c then Some (bottom (heap_regions s (c ! Suc p))) else None)"
    and hr: "heap_regions s' = heap_regions s" and rest: "heap_max_regions s' = heap_max_regions s"
    using ok Some h nx
    by (auto simp: claim_region_def claim_region_from_def Let_def split: if_splits)
  have hrc': "\<And>a. heap_region_containing s' a = heap_region_containing s a"
    by (simp add: heap_region_containing_def hr rest)
  have wf': "cset_wf s' c"
  proof -
    have "is_cset_chain s' x c = is_cset_chain s x c" for x
      by (induction c arbitrary: x) (auto simp: hr)
    with wf fin show ?thesis
      unfolding cset_wf_def hr hrc' by (auto split: if_splits)
  qed
  have "chain_position s c (cm_finger s') = min (length c) (Suc p)"
  proof (cases "Suc p < length c")
    case True
    with fin position_nth[OF d inj True] show ?thesis by simp
  next
    case False
    with fin p show ?thesis by (simp add: chain_position_def)
  qed
  with wf' hr pos show ?thesis by simp
qed

lemma chain_position_cong:
  "heap_regions s' = heap_regions s \<Longrightarrow> chain_position s' c = chain_position s c"
  by (rule ext) (simp add: chain_position_def split: option.splits)

text \<open>
  C3. The cursor only advances along the collection-set chain. On a well-formed chain
  \<open>c\<close>, whatever the position \<open>p\<close> of \<open>finger\<close> before a sequence of \<open>k\<close> calls of
  \<open>claim_region\<close>, the values of \<open>finger\<close> observed after the calls are at the
  positions \<open>p + 1\<close>, \<open>p + 2\<close>, ..., \<open>p + k\<close>, stopping at the end of the chain
  (\<open>finger = NULL\<close>, position \<open>length c\<close>): every swap moves the cursor one region
  forward and none moves it back. The order is the order of the chain, not of the
  addresses: the example chain runs from bottom 200 to bottom 100.
\<close>

theorem claim_region_finger_advances:
  assumes "cset_wf s c" and "claim_regions k s = Inr (obs, s')"
  shows "map (chain_position s c) obs =
         map (\<lambda>i. min (length c) (chain_position s c (cm_finger s) + i)) [1..<Suc k]"
  using assms
proof (induction k arbitrary: s obs s')
  case 0
  then show ?case by simp
next
  case (Suc k)
  from Suc.prems(2) obtain res s1 obs1 where
    c1: "claim_region s = Inr (res, s1)" and
    rest: "claim_regions k s1 = Inr (obs1, s')" and
    obs: "obs = cm_finger s1 # obs1"
    by (auto simp: thenE_def split: sum.splits prod.splits)
  from claim_region_step[OF Suc.prems(1) c1] have
    wf1: "cset_wf s1 c" and hr: "heap_regions s1 = heap_regions s" and
    p1: "chain_position s c (cm_finger s1) = min (length c) (Suc (chain_position s c (cm_finger s)))"
    by auto
  have ih: "map (chain_position s c) obs1 =
         map (\<lambda>i. min (length c) (chain_position s c (cm_finger s1) + i)) [1..<Suc k]"
    using Suc.IH[OF wf1 rest] chain_position_cong[OF hr] by simp
  have shift: "[1..<Suc (Suc k)] = 1 # map Suc [1..<Suc k]"
    by (simp add: map_Suc_upt upt_conv_Cons del: upt_Suc)
  show ?case
    unfolding obs shift using p1 ih by (auto simp: o_def min_def)
qed

lemma demo_claim_steps:
  "claim_region demo_marker = Inr (Some 1, demo_marker\<lparr>cm_finger := Some 100\<rparr>)"
  "claim_region (demo_marker\<lparr>cm_finger := Some 100\<rparr>) = Inr (None, demo_marker\<lparr>cm_finger := None\<rparr>)"
  "claim_region (demo_marker\<lparr>cm_finger := None\<rparr>) = Inr (None, demo_marker\<lparr>cm_finger := None\<rparr>)"
  by (simp_all add: claim_region_def claim_region_from_def heap_region_containing_def
        demo_marker_def demo_region_def is_in_reserved_def upt_rec)

lemma demo_wf: "cset_wf demo_marker [1, 0]"
  using demo_region_containing
  by (simp add: cset_wf_def) (simp add: demo_marker_def demo_region_def)

lemma demo_run:
  "claim_regions 3 demo_marker = Inr ([Some 100, None, None], demo_marker\<lparr>cm_finger := None\<rparr>)"
  using demo_claim_steps by (simp add: numeral_3_eq_3 thenE_def)

theorem claim_region_finger_advances_witness:
  "cset_wf demo_marker [1, 0] \<and>
   claim_regions 3 demo_marker = Inr ([Some 100, None, None], demo_marker\<lparr>cm_finger := None\<rparr>) \<and>
   chain_position demo_marker [1, 0] (cm_finger demo_marker) = 0 \<and>
   map (chain_position demo_marker [1, 0]) [Some 100, None, None] = [1, 2, 2]"
proof -
  have p0: "chain_position demo_marker [1, 0] (cm_finger demo_marker) = 0"
    by (simp add: chain_position_def demo_marker_def demo_region_def)
  have "map (chain_position demo_marker [1, 0]) [Some 100, None, None] =
        map (\<lambda>i. min (length [1::nat, 0])
                    (chain_position demo_marker [1, 0] (cm_finger demo_marker) + i)) [1..<Suc 3]"
    using claim_region_finger_advances [OF demo_wf demo_run] .
  also have "\<dots> = [1, 2, 2]"
    unfolding p0 by (simp add: upt_rec)
  finally show ?thesis using demo_wf demo_run p0 by simp
qed

subsection \<open>The clock\<close>

text \<open>
  C6, as the code has it. A task that has already aborted gets \<open>false\<close> at once, and
  its limits are not recomputed. Otherwise the limits are recomputed and the tests run
  in this order: global overflow (false); not concurrent (true); global marking
  aborted (false); then the clock is read; yield requested (false); elapsed time above
  the time target (false, and the timed-out flag is set); completed SATB buffers
  waiting while the task is not draining them (false); otherwise true.
\<close>

theorem regular_clock_call_order:
  "regular_clock_call s =
     (if has_aborted s then (False, s)
      else if cm_has_overflown s then (False, recalculate_limits s)
      else if \<not> cm_concurrent s then (True, recalculate_limits s)
      else if cm_has_aborted s then (False, recalculate_limits s)
      else if sts_should_yield (env s) then (False, snd (read_vtime_ms (recalculate_limits s)))
      else if time_target_ms s < elapsed_vtime_ms (env s) (vtime_reads s) - start_time_ms s
        then (False, (snd (read_vtime_ms (recalculate_limits s)))\<lparr>has_timed_out := True\<rparr>)
      else if \<not> draining_satb_buffers s \<and> satb_process_completed_buffers (env s)
        then (False, snd (read_vtime_ms (recalculate_limits s)))
      else (True, snd (read_vtime_ms (recalculate_limits s))))"
  by (simp add: regular_clock_call_def recalculate_limits_def read_vtime_ms_def Let_def)

text \<open>
  The claim as it was stated fails on a task that has aborted: with no global overflow
  and the phase not concurrent, the call returns false, not true, and the limits stay
  as they were.
\<close>

theorem regular_clock_call_aborted_task_counterexample:
  "\<not> cm_has_overflown (demo_marker\<lparr>cm_concurrent := False, has_aborted := True\<rparr>) \<and>
   \<not> cm_concurrent (demo_marker\<lparr>cm_concurrent := False, has_aborted := True\<rparr>) \<and>
   regular_clock_call (demo_marker\<lparr>cm_concurrent := False, has_aborted := True\<rparr>) =
     (False, demo_marker\<lparr>cm_concurrent := False, has_aborted := True\<rparr>) \<and>
   words_scanned_limit (demo_marker\<lparr>cm_concurrent := False, has_aborted := True\<rparr>) \<noteq>
     words_scanned_limit (recalculate_limits (demo_marker\<lparr>cm_concurrent := False, has_aborted := True\<rparr>))"
  by (simp add: regular_clock_call_def demo_marker_def recalculate_limits_def)

subsection \<open>The local deque and the overflow stack\<close>

lemma EntriesPerChunk_pos: "0 < EntriesPerChunk"
  by (simp add: EntriesPerChunk_def)

lemma fill_buffer_result:
  "n \<le> EntriesPerChunk \<Longrightarrow> length buffer = EntriesPerChunk \<Longrightarrow>
   fill_buffer n buffer q =
     (n + min (length (tq_elems q)) (EntriesPerChunk - n),
      take n buffer @ take (EntriesPerChunk - n) (tq_elems q)
        @ drop (n + min (length (tq_elems q)) (EntriesPerChunk - n)) buffer,
      q\<lparr>tq_elems := drop (EntriesPerChunk - n) (tq_elems q)\<rparr>)"
proof (induction n buffer q rule: fill_buffer.induct)
  case (1 n buffer q)
  show ?case
  proof (cases "n < EntriesPerChunk")
    case False
    with "1.prems" show ?thesis
      by (subst fill_buffer.simps) simp
  next
    case True
    show ?thesis
    proof (cases "tq_elems q")
      case Nil
      with True "1.prems" show ?thesis
        by (subst fill_buffer.simps) (simp add: tq_pop_local_def)
    next
      case (Cons e es)
      have pop: "tq_pop_local q = Some (e, q\<lparr>tq_elems := es\<rparr>)"
        by (simp add: tq_pop_local_def Cons)
      have ih: "fill_buffer (Suc n) (buffer[n := e]) (q\<lparr>tq_elems := es\<rparr>) =
        (Suc n + min (length es) (EntriesPerChunk - Suc n),
         take (Suc n) (buffer[n := e]) @ take (EntriesPerChunk - Suc n) es
           @ drop (Suc n + min (length es) (EntriesPerChunk - Suc n)) (buffer[n := e]),
         q\<lparr>tq_elems := drop (EntriesPerChunk - Suc n) es\<rparr>)"
        using "1.IH"[OF True pop refl] True "1.prems" by simp
      have t: "take (Suc n) (buffer[n := e]) = take n buffer @ [e]"
        using True "1.prems" by (simp add: take_Suc_conv_app_nth)
      obtain m where m: "EntriesPerChunk - n = Suc m" using True by (cases "EntriesPerChunk - n") auto
      then have m': "EntriesPerChunk - Suc n = m" by simp
      show ?thesis
        apply (subst fill_buffer.simps)
        using True pop ih t Cons m m' by (simp add: min_def)
    qed
  qed
qed

lemma replicate_update_same: "(replicate k x)[i := x] = replicate k x"
  by (induction k arbitrary: i) (auto split: nat.splits)

lemma move_entries_batch:
  "move_entries_to_global_stack s =
     (let es = tq_elems (semeru_task_queue s);
          n = min (length es) EntriesPerChunk;
          batch = take n es @ replicate (EntriesPerChunk - n) NullEntry;
          s1 = s\<lparr>semeru_task_queue := (semeru_task_queue s)\<lparr>tq_elems := drop n es\<rparr>\<rparr>
      in decrease_limits
           (if 0 < n then
              (case mark_stack_push batch s1 of
                 (True, s') \<Rightarrow> s'
               | (False, s') \<Rightarrow> set_has_aborted s')
            else s1))"
proof -
  let ?es = "tq_elems (semeru_task_queue s)"
  let ?n = "min (length ?es) EntriesPerChunk"
  have fb: "fill_buffer 0 (replicate EntriesPerChunk NullEntry) (semeru_task_queue s) =
     (?n, take EntriesPerChunk ?es @ drop ?n (replicate EntriesPerChunk NullEntry),
      (semeru_task_queue s)\<lparr>tq_elems := drop EntriesPerChunk ?es\<rparr>)"
    using fill_buffer_result[of 0 "replicate EntriesPerChunk NullEntry" "semeru_task_queue s"]
    by simp
  have b1: "take EntriesPerChunk ?es @ drop ?n (replicate EntriesPerChunk NullEntry) =
            take ?n ?es @ replicate (EntriesPerChunk - ?n) NullEntry"
    by (simp add: min_def)
  have b2: "?n < EntriesPerChunk \<Longrightarrow>
    (take ?n ?es @ replicate (EntriesPerChunk - ?n) NullEntry)[?n := NullEntry] =
     take ?n ?es @ replicate (EntriesPerChunk - ?n) NullEntry"
    by (simp add: list_update_append min_def replicate_update_same)
  have d: "drop EntriesPerChunk ?es = drop ?n ?es"
    by (simp add: min_def)
  show ?thesis
    unfolding move_entries_to_global_stack_def fb Let_def prod.case b1 d
    using b2 by (simp add: Let_def)
qed

lemma push_full:
  assumes full: "tq_size (semeru_task_queue s) = tq_max_elems (semeru_task_queue s)"
    and cap: "0 < tq_max_elems (semeru_task_queue s)"
  shows "tq_size (semeru_task_queue (move_entries_to_global_stack s)) =
           tq_max_elems (semeru_task_queue s) - min (tq_max_elems (semeru_task_queue s)) EntriesPerChunk \<and>
         push task_entry s =
           Inr ((move_entries_to_global_stack s)
                  \<lparr>semeru_task_queue :=
                     (semeru_task_queue (move_entries_to_global_stack s))
                       \<lparr>tq_elems := task_entry # tq_elems (semeru_task_queue (move_entries_to_global_stack s))\<rparr>\<rparr>)"
proof -
  let ?q = "semeru_task_queue s"
  let ?n = "min (length (tq_elems ?q)) EntriesPerChunk"
  have q': "semeru_task_queue (move_entries_to_global_stack s) = ?q\<lparr>tq_elems := drop ?n (tq_elems ?q)\<rparr>"
    unfolding move_entries_batch
    by (simp add: Let_def decrease_limits_def mark_stack_push_def set_has_aborted_def
          split: prod.splits bool.splits)
  have npos: "0 < ?n" using full cap EntriesPerChunk_pos by (simp add: tq_size_def)
  have first: "tq_push task_entry ?q = (False, ?q)"
    using full by (simp add: tq_push_def tq_size_def)
  have retry: "tq_push task_entry (semeru_task_queue (move_entries_to_global_stack s)) =
     (True, (semeru_task_queue (move_entries_to_global_stack s))
        \<lparr>tq_elems := task_entry # tq_elems (semeru_task_queue (move_entries_to_global_stack s))\<rparr>)"
    unfolding q' using npos full cap by (simp add: tq_push_def tq_size_def)
  have sz: "tq_size (semeru_task_queue (move_entries_to_global_stack s)) =
           tq_max_elems ?q - min (tq_max_elems ?q) EntriesPerChunk"
    unfolding q' using full by (simp add: tq_size_def)
  show ?thesis
    using sz first retry by (simp add: push_def Let_def)
qed

lemma EntriesPerChunk_ge2:
  "min 2 EntriesPerChunk = 2"
  "min (Suc (Suc 0)) EntriesPerChunk = Suc (Suc 0)"
  "Suc (Suc 0) \<le> EntriesPerChunk"
  by (simp_all add: EntriesPerChunk_def)

text \<open>
  C7. When the local deque holds entries (as it does when it has overflowed),
  \<open>move_entries_to_global_stack\<close> pops \<open>n\<close> of them, \<open>n\<close> the smaller of the
  deque's size and \<open>EntriesPerChunk\<close>, into a batch of \<open>EntriesPerChunk\<close> slots
  whose other slots are null, and pushes the batch on the overflow stack. When the push
  succeeds the batch is the new first chunk of the stack and the task's abort flag is
  as it was; when the push fails the chunks of the stack are as they were and the task
  has aborted. In both cases the popped entries have left the deque and the limits are
  decreased.
\<close>

theorem move_entries_to_global_stack_batch:
  assumes "tq_elems (semeru_task_queue s) \<noteq> []"
  shows "let es = tq_elems (semeru_task_queue s);
             n = min (length es) EntriesPerChunk;
             batch = take n es @ replicate (EntriesPerChunk - n) NullEntry;
             s1 = s\<lparr>semeru_task_queue := (semeru_task_queue s)\<lparr>tq_elems := drop n es\<rparr>\<rparr>;
             pushed = fst (mark_stack_push batch s1);
             s' = move_entries_to_global_stack s
         in 0 < n \<and> length batch = EntriesPerChunk \<and>
            move_entries_to_global_stack s =
              decrease_limits
                (case mark_stack_push batch s1 of
                   (True, s') \<Rightarrow> s'
                 | (False, s') \<Rightarrow> set_has_aborted s') \<and>
            tq_elems (semeru_task_queue s') = drop n es \<and>
            (pushed \<longrightarrow>
               chunk_list (cm_global_mark_stack s') = batch # chunk_list (cm_global_mark_stack s) \<and>
               has_aborted s' = has_aborted s) \<and>
            (\<not> pushed \<longrightarrow>
               chunk_list (cm_global_mark_stack s') = chunk_list (cm_global_mark_stack s) \<and>
               has_aborted s')"
proof -
  let ?es = "tq_elems (semeru_task_queue s)"
  let ?n = "min (length ?es) EntriesPerChunk"
  let ?batch = "take ?n ?es @ replicate (EntriesPerChunk - ?n) NullEntry"
  have n: "0 < ?n"
    using assms EntriesPerChunk_pos by simp
  have len: "length ?batch = EntriesPerChunk" by simp
  then have tk: "take EntriesPerChunk ?batch = ?batch" by (simp only: take_all order_refl)
  show ?thesis
    unfolding move_entries_batch Let_def
    using n len
    by (simp add: mark_stack_push_def par_push_chunk_def tk remove_chunk_from_free_list_def
          remove_chunk_from_list_def allocate_new_chunk_def add_chunk_to_chunk_list_def
          add_chunk_to_list_def decrease_limits_def set_has_aborted_def Let_def
          split: list.splits)
qed

theorem move_entries_to_global_stack_batch_witness:
  "tq_elems (semeru_task_queue demo_full) \<noteq> [] \<and>
   semeru_task_queue (move_entries_to_global_stack demo_full) = \<lparr>tq_elems = [], tq_max_elems = 2\<rparr> \<and>
   chunk_list (cm_global_mark_stack (move_entries_to_global_stack demo_full)) =
     [[ObjEntry 220, ObjEntry 210] @ replicate (EntriesPerChunk - 2) NullEntry] \<and>
   \<not> has_aborted (move_entries_to_global_stack demo_full) \<and>
   tq_elems (semeru_task_queue demo_overflow) \<noteq> [] \<and>
   \<not> has_aborted demo_overflow \<and>
   has_aborted (move_entries_to_global_stack demo_overflow) \<and>
   semeru_task_queue (move_entries_to_global_stack demo_overflow) =
     \<lparr>tq_elems = [], tq_max_elems = 2\<rparr> \<and>
   chunk_list (cm_global_mark_stack (move_entries_to_global_stack demo_overflow)) =
     [ObjEntry 230 # replicate (EntriesPerChunk - 1) NullEntry]"
proof -
  have ne: "tq_elems (semeru_task_queue demo_full) \<noteq> []"
    by (simp add: demo_full_def)
  have ne': "tq_elems (semeru_task_queue demo_overflow) \<noteq> []"
    by (simp add: demo_overflow_def demo_full_def)
  have ok: "semeru_task_queue (move_entries_to_global_stack demo_full) =
              \<lparr>tq_elems = [], tq_max_elems = 2\<rparr> \<and>
            chunk_list (cm_global_mark_stack (move_entries_to_global_stack demo_full)) =
              [[ObjEntry 220, ObjEntry 210] @ replicate (EntriesPerChunk - 2) NullEntry] \<and>
            \<not> has_aborted (move_entries_to_global_stack demo_full)"
    using move_entries_to_global_stack_batch [OF ne]
    by (simp add: demo_full_def demo_marker_def Let_def EntriesPerChunk_ge2 mark_stack_push_def
          par_push_chunk_def remove_chunk_from_free_list_def remove_chunk_from_list_def
          allocate_new_chunk_def add_chunk_to_chunk_list_def add_chunk_to_list_def
          decrease_limits_def numeral_2_eq_2)
  have fails: "\<not> has_aborted demo_overflow \<and>
            has_aborted (move_entries_to_global_stack demo_overflow) \<and>
            semeru_task_queue (move_entries_to_global_stack demo_overflow) =
              \<lparr>tq_elems = [], tq_max_elems = 2\<rparr> \<and>
            chunk_list (cm_global_mark_stack (move_entries_to_global_stack demo_overflow)) =
              [ObjEntry 230 # replicate (EntriesPerChunk - 1) NullEntry]"
    using move_entries_to_global_stack_batch [OF ne']
    by (simp add: demo_overflow_def demo_full_def demo_marker_def Let_def EntriesPerChunk_ge2
          mark_stack_push_def par_push_chunk_def remove_chunk_from_free_list_def
          remove_chunk_from_list_def allocate_new_chunk_def add_chunk_to_chunk_list_def
          add_chunk_to_list_def decrease_limits_def set_has_aborted_def numeral_2_eq_2)
  from ne ne' ok fails show ?thesis by simp
qed

text \<open>
  C5. When \<open>push\<close> finds the local deque full (of a capacity that is not zero),
  \<open>move_entries_to_global_stack\<close> leaves it with room for as many entries as it
  popped, the smaller of the capacity and \<open>EntriesPerChunk\<close>, and the retried push
  succeeds: \<open>push\<close> returns with the entry on the deque, and never ends in
  \<open>PushRetryFailed\<close>.
\<close>

theorem push_retry_succeeds:
  assumes full: "tq_size (semeru_task_queue s) = tq_max_elems (semeru_task_queue s)"
    and cap: "0 < tq_max_elems (semeru_task_queue s)"
  shows "tq_size (semeru_task_queue (move_entries_to_global_stack s)) =
           tq_max_elems (semeru_task_queue s) - min (tq_max_elems (semeru_task_queue s)) EntriesPerChunk \<and>
         push task_entry s =
           Inr ((move_entries_to_global_stack s)
                  \<lparr>semeru_task_queue :=
                     (semeru_task_queue (move_entries_to_global_stack s))
                       \<lparr>tq_elems := task_entry # tq_elems (semeru_task_queue (move_entries_to_global_stack s))\<rparr>\<rparr>)"
  using push_full [OF full cap] .

theorem push_retry_succeeds_witness:
  "tq_size (semeru_task_queue demo_full) = tq_max_elems (semeru_task_queue demo_full) \<and>
   0 < tq_max_elems (semeru_task_queue demo_full) \<and>
   tq_size (semeru_task_queue (move_entries_to_global_stack demo_full)) = 0 \<and>
   (\<exists>s'. push (ObjEntry 230) demo_full = Inr s' \<and>
          semeru_task_queue s' = \<lparr>tq_elems = [ObjEntry 230], tq_max_elems = 2\<rparr>)"
proof -
  have full: "tq_size (semeru_task_queue demo_full) = tq_max_elems (semeru_task_queue demo_full)"
    and cap: "0 < tq_max_elems (semeru_task_queue demo_full)"
    by (simp_all add: demo_full_def tq_size_def)
  have q: "semeru_task_queue (move_entries_to_global_stack demo_full) = \<lparr>tq_elems = [], tq_max_elems = 2\<rparr>"
    unfolding move_entries_batch
    by (simp add: Let_def demo_full_def EntriesPerChunk_ge2 EntriesPerChunk_pos decrease_limits_def
          mark_stack_push_def set_has_aborted_def split: prod.splits bool.splits)
  show ?thesis
    using full cap push_retry_succeeds [OF full cap, of "ObjEntry 230"] q
    by (simp add: EntriesPerChunk_ge2 demo_full_def)
qed

subsection \<open>Marking and liveness\<close>

lemma move_entries_frame:
  "heap_regions (move_entries_to_global_stack s) = heap_regions s \<and>
   mark_stats_cache (move_entries_to_global_stack s) = mark_stats_cache s \<and>
   curr_region (move_entries_to_global_stack s) = curr_region s \<and>
   task_alive_bitmap (move_entries_to_global_stack s) = task_alive_bitmap s \<and>
   worker_id (move_entries_to_global_stack s) = worker_id s \<and>
   objs (move_entries_to_global_stack s) = objs s \<and>
   heap_max_regions (move_entries_to_global_stack s) = heap_max_regions s"
  unfolding move_entries_batch
  by (simp add: Let_def decrease_limits_def mark_stack_push_def set_has_aborted_def
        split: prod.splits bool.splits)

lemma push_frame:
  assumes "push e s = Inr s'"
  shows "heap_regions s' = heap_regions s \<and> mark_stats_cache s' = mark_stats_cache s \<and>
   curr_region s' = curr_region s \<and> task_alive_bitmap s' = task_alive_bitmap s \<and>
   worker_id s' = worker_id s \<and> objs s' = objs s \<and> heap_max_regions s' = heap_max_regions s"
proof (cases "tq_push e (semeru_task_queue s)")
  case (Pair ok q)
  show ?thesis
  proof (cases ok)
    case True
    with Pair assms show ?thesis by (auto simp: push_def)
  next
    case False
    with Pair have q: "q = semeru_task_queue s" by (auto simp: tq_push_def split: if_splits)
    from assms Pair False q show ?thesis
      using move_entries_frame[of s]
      by (auto simp: push_def Let_def split: prod.splits bool.splits)
  qed
qed

lemma heap_region_containing_bitmap_update:
  "heap_region_containing
     (s\<lparr>heap_regions := (heap_regions s)(r := (heap_regions s r)\<lparr>alive_bitmap := bm\<rparr>)\<rparr>) a =
   heap_region_containing s a"
  unfolding heap_region_containing_def
  by (rule arg_cong2[where f = find]) (auto simp: is_in_reserved_def fun_eq_iff)

lemma mark_in_alive_bitmap_step:
  assumes run: "mark_in_alive_bitmap (worker_id s) obj s = Inr (res, s')"
    and cur: "curr_region s = Some r"
    and tbl: "\<forall>a. is_in_reserved (heap_regions s r) a \<longrightarrow> heap_region_containing s a = Some r"
  shows "marking_frame r s s' \<and> semeru_task_queue s' = semeru_task_queue s \<and>
         res = (obj < next_top_at_mark_start (heap_regions s r) \<and> obj \<notin> alive_bitmap (heap_regions s r)) \<and>
         (res \<longrightarrow> alive_bitmap (heap_regions s' r) = insert obj (alive_bitmap (heap_regions s r)) \<and>
                 mark_stats_cache s' r = mark_stats_cache s r + obj_size (objs s) obj) \<and>
         (\<not> res \<longrightarrow> alive_bitmap (heap_regions s' r) = alive_bitmap (heap_regions s r) \<and>
                 mark_stats_cache s' r = mark_stats_cache s r) \<and>
         (next_top_at_mark_start (heap_regions s r) \<le> obj \<longrightarrow> s' = s)"
proof -
  from run cur have inr: "is_in_reserved (heap_regions s r) obj"
    by (auto simp: mark_in_alive_bitmap_def split: if_splits)
  with tbl have h: "heap_region_containing s obj = Some r" by simp
  show ?thesis
    using run cur inr h
    by (auto simp: mark_in_alive_bitmap_def marking_frame_def par_mark_def Let_def
          add_to_liveness_def update_liveness_def add_live_words_def
          obj_allocated_since_next_marking_def addr_to_region_def
          heap_region_containing_bitmap_update
          split: if_splits)
qed

lemma deal_with_reference_step:
  assumes run: "deal_with_reference p s = Inr (res, s')"
    and cur: "curr_region s = Some r"
    and tbl: "\<forall>a. is_in_reserved (heap_regions s r) a \<longrightarrow> heap_region_containing s a = Some r"
  shows "marking_frame r s s' \<and>
         (res \<longrightarrow> (\<exists>obj. oop_load (objs s) p = Some obj \<and>
                    obj < next_top_at_mark_start (heap_regions s r) \<and>
                    obj \<notin> alive_bitmap (heap_regions s r) \<and>
                    alive_bitmap (heap_regions s' r) = insert obj (alive_bitmap (heap_regions s r)) \<and>
                    mark_stats_cache s' r = mark_stats_cache s r + obj_size (objs s) obj)) \<and>
         (\<not> res \<longrightarrow> alive_bitmap (heap_regions s' r) = alive_bitmap (heap_regions s r) \<and>
                 mark_stats_cache s' r = mark_stats_cache s r)"
proof (cases "oop_load (objs s) p")
  case None
  with run show ?thesis by (simp add: deal_with_reference_def marking_frame_def)
next
  case (Some obj)
  show ?thesis
  proof (cases "is_in_reserved (heap_regions s r) obj")
    case False
    with run Some cur show ?thesis by (simp add: deal_with_reference_def marking_frame_def)
  next
    case True
    with run Some cur have mra: "make_reference_alive obj s = Inr (res, s')"
      by (simp add: deal_with_reference_def)
    then obtain marked s1 where
      m: "mark_in_alive_bitmap (worker_id s) obj s = Inr (marked, s1)"
      by (auto simp: make_reference_alive_def thenE_def split: sum.splits)
    note st = mark_in_alive_bitmap_step[OF m cur tbl]
    show ?thesis
    proof (cases marked)
      case False
      with mra m have "res = False" "s' = s1"
        by (auto simp: make_reference_alive_def thenE_def)
      with st False show ?thesis by simp
    next
      case True
      with mra m obtain s2 where
        s2: "(if obj_is_typeArray (objs s1) obj
                then process_grey_task_entry_false (ObjEntry obj) s1
                else push (ObjEntry obj) s1) = Inr s2" and r: "res = True" "s' = s2"
        by (auto simp: make_reference_alive_def thenE_def split: sum.splits)
      have fr: "heap_regions s2 = heap_regions s1 \<and> mark_stats_cache s2 = mark_stats_cache s1 \<and>
        curr_region s2 = curr_region s1 \<and> task_alive_bitmap s2 = task_alive_bitmap s1 \<and>
        worker_id s2 = worker_id s1 \<and> objs s2 = objs s1 \<and> heap_max_regions s2 = heap_max_regions s1"
      proof (cases "obj_is_typeArray (objs s1) obj")
        case True
        with s2 show ?thesis by (simp add: process_grey_task_entry_false_def)
      next
        case False
        with s2 push_frame show ?thesis by simp
      qed
      with st True r Some show ?thesis by (simp add: marking_frame_def)
    qed
  qed
qed

lemma same_geometry:
  assumes "(a::HeapRegion)\<lparr>alive_bitmap := {}\<rparr> = b\<lparr>alive_bitmap := {}\<rparr>"
  shows "is_in_reserved a = is_in_reserved b"
    and "next_top_at_mark_start a = next_top_at_mark_start b"
proof -
  from assms have "bottom (a\<lparr>alive_bitmap := {}\<rparr>) = bottom (b\<lparr>alive_bitmap := {}\<rparr>)"
    "hr_end (a\<lparr>alive_bitmap := {}\<rparr>) = hr_end (b\<lparr>alive_bitmap := {}\<rparr>)"
    "next_top_at_mark_start (a\<lparr>alive_bitmap := {}\<rparr>) = next_top_at_mark_start (b\<lparr>alive_bitmap := {}\<rparr>)"
    by simp_all
  then show "is_in_reserved a = is_in_reserved b"
    and "next_top_at_mark_start a = next_top_at_mark_start b"
    by (simp_all add: is_in_reserved_def fun_eq_iff)
qed

lemma marking_frame_table:
  assumes fr: "marking_frame r s s1"
    and tbl: "\<forall>a. is_in_reserved (heap_regions s r) a \<longrightarrow> heap_region_containing s a = Some r"
  shows "\<forall>a. is_in_reserved (heap_regions s1 r) a \<longrightarrow> heap_region_containing s1 a = Some r"
proof -
  from fr have g: "\<And>i. is_in_reserved (heap_regions s1 i) = is_in_reserved (heap_regions s i)"
    and m: "heap_max_regions s1 = heap_max_regions s"
    by (auto simp: marking_frame_def intro: same_geometry)
  have "heap_region_containing s1 a = heap_region_containing s a" for a
    by (simp add: heap_region_containing_def g m)
  with tbl g show ?thesis by simp
qed

lemma oop_iterate_counts:
  assumes run: "oop_iterate ps s = Inr s'"
    and cur: "curr_region s = Some r"
    and tbl: "\<forall>a. is_in_reserved (heap_regions s r) a \<longrightarrow> heap_region_containing s a = Some r"
  shows "marking_frame r s s' \<and>
         alive_bitmap (heap_regions s r) \<subseteq> alive_bitmap (heap_regions s' r) \<and>
         finite (alive_bitmap (heap_regions s' r) - alive_bitmap (heap_regions s r)) \<and>
         (\<forall>a \<in> alive_bitmap (heap_regions s' r) - alive_bitmap (heap_regions s r).
            a < next_top_at_mark_start (heap_regions s r)) \<and>
         mark_stats_cache s' r = mark_stats_cache s r +
           (\<Sum>a \<in> alive_bitmap (heap_regions s' r) - alive_bitmap (heap_regions s r).
              obj_size (objs s) a)"
  using assms
proof (induction ps arbitrary: s)
  case Nil
  then show ?case by (simp add: marking_frame_def)
next
  case (Cons p ps)
  from Cons.prems(1) obtain res s1 where
    d: "deal_with_reference p s = Inr (res, s1)" and rest: "oop_iterate ps s1 = Inr s'"
    by (auto simp: thenE_def split: sum.splits)
  note st = deal_with_reference_step[OF d Cons.prems(2,3)]
  from st have fr1: "marking_frame r s s1" by simp
  then have cur1: "curr_region s1 = Some r" using Cons.prems(2) by (simp add: marking_frame_def)
  have tbl1: "\<forall>a. is_in_reserved (heap_regions s1 r) a \<longrightarrow> heap_region_containing s1 a = Some r"
    by (rule marking_frame_table[OF fr1 Cons.prems(3)])
  note ih = Cons.IH[OF rest cur1 tbl1]
  from fr1 have nt: "next_top_at_mark_start (heap_regions s1 r) = next_top_at_mark_start (heap_regions s r)"
    and ob: "objs s1 = objs s"
    by (auto simp: marking_frame_def intro: same_geometry)
  let ?b = "alive_bitmap (heap_regions s r)"
  let ?b1 = "alive_bitmap (heap_regions s1 r)"
  let ?b' = "alive_bitmap (heap_regions s' r)"
  from ih fr1 have fr: "marking_frame r s s'"
    by (auto simp: marking_frame_def)
  show ?case
  proof (cases res)
    case False
    with st have "?b1 = ?b" "mark_stats_cache s1 r = mark_stats_cache s r" by auto
    with ih fr nt ob show ?thesis by simp
  next
    case True
    with st obtain obj where o: "obj < next_top_at_mark_start (heap_regions s r)" "obj \<notin> ?b"
      "?b1 = insert obj ?b" "mark_stats_cache s1 r = mark_stats_cache s r + obj_size (objs s) obj"
      by auto
    from ih have sub: "?b1 \<subseteq> ?b'" and fin: "finite (?b' - ?b1)" by auto
    have split: "?b' - ?b = insert obj (?b' - ?b1)" "obj \<notin> ?b' - ?b1"
      using o sub by auto
    have "mark_stats_cache s' r = mark_stats_cache s1 r + (\<Sum>a \<in> ?b' - ?b1. obj_size (objs s) a)"
      using ih ob by simp
    also have "\<dots> = mark_stats_cache s r + (\<Sum>a \<in> ?b' - ?b. obj_size (objs s) a)"
      unfolding split(1) using o(4) fin split(2) by simp
    finally have cnt: "mark_stats_cache s' r =
        mark_stats_cache s r + (\<Sum>a \<in> ?b' - ?b. obj_size (objs s) a)" .
    have "\<forall>a \<in> ?b' - ?b. a < next_top_at_mark_start (heap_regions s r)"
      unfolding split(1) using ih nt o(1) by auto
    moreover have "finite (?b' - ?b)" unfolding split(1) using fin by simp
    moreover have "?b \<subseteq> ?b'" using o sub by auto
    ultimately show ?thesis using fr cnt by simp
  qed
qed

text \<open>
  C1. Let the worker hold region \<open>r\<close>, every address of \<open>r\<close> being found in
  \<open>r\<close> by the region table. A call of \<open>mark_in_alive_bitmap\<close> that returns gives
  true exactly when the object is below NTAMS and its bit was not set; for an object at
  or above NTAMS the state, bitmap included, is unchanged; the bit is set exactly when
  the result is true, and the object's size is added to the worker's live words of
  \<open>r\<close> exactly then. So over any run of \<open>deal_with_reference\<close> through the
  reference fields \<open>ps\<close>, no bit is cleared, every newly marked object is below NTAMS,
  and the live words grow by the sizes of the newly marked objects, each counted once.
\<close>

theorem mark_in_alive_bitmap_counts_once:
  assumes cur: "curr_region s = Some r"
    and rtf: "region_table_finds s r"
  shows
    "(\<forall>obj res s'. mark_in_alive_bitmap (worker_id s) obj s = Inr (res, s') \<longrightarrow>
        res = (obj < next_top_at_mark_start (heap_regions s r) \<and>
               obj \<notin> alive_bitmap (heap_regions s r)) \<and>
        (next_top_at_mark_start (heap_regions s r) \<le> obj \<longrightarrow> s' = s) \<and>
        alive_bitmap (heap_regions s' r) =
          (if res then insert obj (alive_bitmap (heap_regions s r))
           else alive_bitmap (heap_regions s r)) \<and>
        mark_stats_cache s' r =
          mark_stats_cache s r + (if res then obj_size (objs s) obj else 0)) \<and>
     (\<forall>ps s'. oop_iterate ps s = Inr s' \<longrightarrow>
        alive_bitmap (heap_regions s r) \<subseteq> alive_bitmap (heap_regions s' r) \<and>
        finite (alive_bitmap (heap_regions s' r) - alive_bitmap (heap_regions s r)) \<and>
        (\<forall>a \<in> alive_bitmap (heap_regions s' r) - alive_bitmap (heap_regions s r).
           a < next_top_at_mark_start (heap_regions s r)) \<and>
        mark_stats_cache s' r = mark_stats_cache s r +
          (\<Sum>a \<in> alive_bitmap (heap_regions s' r) - alive_bitmap (heap_regions s r).
             obj_size (objs s) a))"
proof (intro conjI allI impI)
  from rtf have tbl:
    "\<forall>a. is_in_reserved (heap_regions s r) a \<longrightarrow> heap_region_containing s a = Some r"
    by (simp add: region_table_finds_def)
  fix obj res s'
  assume m: "mark_in_alive_bitmap (worker_id s) obj s = Inr (res, s')"
  note st = mark_in_alive_bitmap_step [OF m cur tbl]
  from st show "res = (obj < next_top_at_mark_start (heap_regions s r) \<and>
               obj \<notin> alive_bitmap (heap_regions s r))" by simp
  from st show "s' = s" if "next_top_at_mark_start (heap_regions s r) \<le> obj"
    using that by simp
  from st show "alive_bitmap (heap_regions s' r) =
          (if res then insert obj (alive_bitmap (heap_regions s r))
           else alive_bitmap (heap_regions s r))" by simp
  from st show "mark_stats_cache s' r =
          mark_stats_cache s r + (if res then obj_size (objs s) obj else 0)" by simp
next
  from rtf have tbl:
    "\<forall>a. is_in_reserved (heap_regions s r) a \<longrightarrow> heap_region_containing s a = Some r"
    by (simp add: region_table_finds_def)
  fix ps s'
  assume run: "oop_iterate ps s = Inr s'"
  note sq = oop_iterate_counts [OF run cur tbl]
  from sq show "alive_bitmap (heap_regions s r) \<subseteq> alive_bitmap (heap_regions s' r)" by simp
  from sq show "finite (alive_bitmap (heap_regions s' r) - alive_bitmap (heap_regions s r))" by simp
  from sq show "\<forall>a \<in> alive_bitmap (heap_regions s' r) - alive_bitmap (heap_regions s r).
           a < next_top_at_mark_start (heap_regions s r)" by blast
  from sq show "mark_stats_cache s' r = mark_stats_cache s r +
          (\<Sum>a \<in> alive_bitmap (heap_regions s' r) - alive_bitmap (heap_regions s r).
             obj_size (objs s) a)" by simp
qed

lemma demo_scan_region:
  "curr_region demo_scan = Some 1"
  "region_table_finds demo_scan 1"
  by (auto simp: region_table_finds_def demo_scan_def demo_marker_def demo_region_def is_in_reserved_def
        heap_region_containing_def upt_rec)

lemma demo_scan_run:
  "\<exists>s'. oop_iterate [211, 212, 213] demo_scan = Inr s' \<and>
     alive_bitmap (heap_regions s' 1) = {220} \<and> mark_stats_cache s' 1 = 7"
  by (simp add: demo_scan_def demo_marker_def demo_region_def thenE_def
        deal_with_reference_def make_reference_alive_def mark_in_alive_bitmap_def
        is_in_reserved_def obj_allocated_since_next_marking_def is_continues_humongous_def
        par_mark_def add_to_liveness_def update_liveness_def add_live_words_def
        addr_to_region_def heap_region_containing_def upt_rec push_def tq_push_def Let_def)

theorem mark_in_alive_bitmap_counts_once_witness:
  "curr_region demo_scan = Some 1 \<and>
   region_table_finds demo_scan 1 \<and>
   (\<exists>s'. oop_iterate [211, 212, 213] demo_scan = Inr s' \<and>
      alive_bitmap (heap_regions s' 1) = {220} \<and>
      mark_stats_cache s' 1 = mark_stats_cache demo_scan 1 + obj_size (objs demo_scan) 220)"
proof -
  from demo_scan_run obtain s' where
    run: "oop_iterate [211, 212, 213] demo_scan = Inr s'" and
    bm: "alive_bitmap (heap_regions s' 1) = {220}" by blast
  have old: "alive_bitmap (heap_regions demo_scan 1) = {}"
    by (simp add: demo_scan_def demo_marker_def demo_region_def)
  from mark_in_alive_bitmap_counts_once [OF demo_scan_region] run
  have "mark_stats_cache s' 1 = mark_stats_cache demo_scan 1 +
          (\<Sum>a \<in> alive_bitmap (heap_regions s' 1) - alive_bitmap (heap_regions demo_scan 1).
             obj_size (objs demo_scan) a)"
    by blast
  with bm old have "mark_stats_cache s' 1 = mark_stats_cache demo_scan 1 + obj_size (objs demo_scan) 220"
    by simp
  with run bm demo_scan_region show ?thesis by blast
qed

subsection \<open>The mark driver\<close>

lemma quiet_Inr [simp]:
  "quiet s (Inr s') = (cm_other_task_queues s' = cm_other_task_queues s \<and>
                       cm_terminator_offered s' = cm_terminator_offered s \<and>
                       step_times_ms s' = step_times_ms s \<and> calls s' = calls s \<and>
                       start_time_ms s' = start_time_ms s \<and> env s' = env s)"
  by (simp add: quiet_def)

lemma quiet_Inl [simp]: "quiet s (Inl e) = (e \<noteq> LocalQueueNotDrained)"
  by (simp add: quiet_def)

lemma quiet_pair_Inr [simp]:
  "quiet_pair s (Inr (x, s')) = (cm_other_task_queues s' = cm_other_task_queues s \<and>
                       cm_terminator_offered s' = cm_terminator_offered s \<and>
                       step_times_ms s' = step_times_ms s \<and> calls s' = calls s \<and>
                       start_time_ms s' = start_time_ms s \<and> env s' = env s)"
  by (simp add: quiet_pair_def)

lemma quiet_pair_Inl [simp]: "quiet_pair s (Inl e) = (e \<noteq> LocalQueueNotDrained)"
  by (simp add: quiet_pair_def)

lemma quiet_thenE:
  assumes "quiet s m" and "\<And>s1. m = Inr s1 \<Longrightarrow> quiet s1 (f s1)"
  shows "quiet s (thenE m f)"
proof (cases m)
  case (Inl e)
  with assms show ?thesis by (simp add: thenE_def)
next
  case (Inr s1)
  with assms(1) assms(2)[OF Inr] show ?thesis
    by (cases "f s1") (simp_all add: thenE_def)
qed

lemma quiet_pair_thenE:
  assumes "quiet_pair s m" and "\<And>x s1. m = Inr (x, s1) \<Longrightarrow> quiet s1 (f (x, s1))"
  shows "quiet s (thenE m f)"
proof (cases m)
  case (Inl e)
  with assms show ?thesis by (simp add: thenE_def)
next
  case (Inr p)
  obtain x s1 where p: "p = (x, s1)" by (cases p)
  with Inr assms(1) assms(2)[of x s1] show ?thesis
    by (cases "f (x, s1)") (simp_all add: thenE_def)
qed

lemma quiet_thenE_pair:
  assumes "quiet s m" and "\<And>s1. m = Inr s1 \<Longrightarrow> quiet_pair s1 (f s1)"
  shows "quiet_pair s (thenE m f)"
proof (cases m)
  case (Inl e)
  with assms show ?thesis by (simp add: thenE_def)
next
  case (Inr s1)
  with assms(1) assms(2)[OF Inr] show ?thesis
    by (cases "f s1") (auto simp: thenE_def)
qed

lemma quiet_pair_thenE_pair:
  assumes "quiet_pair s m" and "\<And>x s1. m = Inr (x, s1) \<Longrightarrow> quiet_pair s1 (f (x, s1))"
  shows "quiet_pair s (thenE m f)"
proof (cases m)
  case (Inl e)
  with assms show ?thesis by (simp add: thenE_def)
next
  case (Inr p)
  obtain x s1 where p: "p = (x, s1)" by (cases p)
  with Inr assms(1) assms(2)[of x s1] show ?thesis
    by (cases "f (x, s1)") (auto simp: thenE_def)
qed

lemma quiet_trans:
  "quiet s (Inr s1) \<Longrightarrow> quiet s1 m \<Longrightarrow> quiet s m"
  by (cases m) simp_all

lemma quiet_pair_trans:
  "quiet s (Inr s1) \<Longrightarrow> quiet_pair s1 m \<Longrightarrow> quiet_pair s m"
  by (cases m) auto

lemma quiet_queue_updI: "quiet (s\<lparr>semeru_task_queue := q\<rparr>) m \<Longrightarrow> quiet s m"
  by (cases m) simp_all

lemma move_entries_quiet:
  "cm_other_task_queues (move_entries_to_global_stack s) = cm_other_task_queues s \<and>
   cm_terminator_offered (move_entries_to_global_stack s) = cm_terminator_offered s \<and>
   step_times_ms (move_entries_to_global_stack s) = step_times_ms s \<and>
   calls (move_entries_to_global_stack s) = calls s \<and>
   start_time_ms (move_entries_to_global_stack s) = start_time_ms s \<and>
   env (move_entries_to_global_stack s) = env s"
  unfolding move_entries_batch
  by (simp add: Let_def decrease_limits_def mark_stack_push_def set_has_aborted_def
        split: prod.splits bool.splits)

lemma push_quiet: "quiet s (push e s)"
  using move_entries_quiet[of s]
  by (auto simp: push_def tq_push_def Let_def split: prod.splits bool.splits if_splits)

lemma mark_in_alive_bitmap_quiet: "quiet_pair s (mark_in_alive_bitmap w obj s)"
  by (auto simp: mark_in_alive_bitmap_def par_mark_def Let_def add_to_liveness_def
        update_liveness_def add_live_words_def split: option.splits)

lemma make_reference_alive_quiet: "quiet_pair s (make_reference_alive obj s)"
  unfolding make_reference_alive_def
proof (rule quiet_pair_thenE_pair[OF mark_in_alive_bitmap_quiet])
  fix x s1
  show "quiet_pair s1 (case (x, s1) of (marked, s1) \<Rightarrow>
           if \<not> marked then Inr (False, s1)
           else thenE (if obj_is_typeArray (objs s1) obj
                       then process_grey_task_entry_false (ObjEntry obj) s1
                       else push (ObjEntry obj) s1) (\<lambda>s2. Inr (True, s2)))"
  proof (cases x)
    case False then show ?thesis by simp
  next
    case True
    have "quiet s1 (if obj_is_typeArray (objs s1) obj
                       then process_grey_task_entry_false (ObjEntry obj) s1
                       else push (ObjEntry obj) s1)"
      using push_quiet by (simp add: process_grey_task_entry_false_def)
    then have "quiet_pair s1 (thenE (if obj_is_typeArray (objs s1) obj
                       then process_grey_task_entry_false (ObjEntry obj) s1
                       else push (ObjEntry obj) s1) (\<lambda>s2. Inr (True, s2)))"
      by (rule quiet_thenE_pair) simp
    with True show ?thesis by simp
  qed
qed

lemma deal_with_reference_quiet: "quiet_pair s (deal_with_reference p s)"
  using make_reference_alive_quiet
  by (simp add: deal_with_reference_def split: option.splits)

lemma oop_iterate_quiet: "quiet s (oop_iterate ps s)"
proof (induction ps arbitrary: s)
  case Nil then show ?case by simp
next
  case (Cons p ps)
  show ?case
    unfolding oop_iterate.simps
    by (rule quiet_pair_thenE[OF deal_with_reference_quiet]) (simp add: Cons.IH)
qed

lemma scan_task_entry_quiet: "quiet s (scan_task_entry e s)"
proof (cases e)
  case (ObjEntry obj)
  have "quiet s (thenE (oop_iterate (obj_ref_fields (objs s) obj) s) (\<lambda>s1.
              Inr (s1\<lparr>words_scanned := words_scanned s1 + of_nat (obj_size (objs s1) obj)\<rparr>)))"
    by (rule quiet_thenE[OF oop_iterate_quiet]) simp
  with ObjEntry show ?thesis
    by (simp add: scan_task_entry_def process_grey_task_entry_true_def)
qed (simp_all add: scan_task_entry_def process_grey_task_entry_true_def)

lemma drain_local_loop_quiet: "quiet s (drain_local_loop k t e s)"
proof (induction k arbitrary: e s)
  case 0 then show ?case by simp
next
  case (Suc k)
  show ?case
    unfolding drain_local_loop.simps
  proof (rule quiet_thenE[OF scan_task_entry_quiet])
    fix s1
    show "quiet s1 (if tq_size (semeru_task_queue s1) \<le> t \<or> has_aborted s1 then Inr s1
           else case tq_pop_local (semeru_task_queue s1) of None \<Rightarrow> Inr s1
                | Some (e, q) \<Rightarrow> drain_local_loop k t e (s1\<lparr>semeru_task_queue := q\<rparr>))"
    proof (cases "tq_size (semeru_task_queue s1) \<le> t \<or> has_aborted s1")
      case True then show ?thesis by auto
    next
      case False
      show ?thesis
      proof (cases "tq_pop_local (semeru_task_queue s1)")
        case None with False show ?thesis by simp
      next
        case (Some eq)
        obtain e' q where "eq = (e', q)" by (cases eq)
        with Some False show ?thesis
          using quiet_queue_updI[OF Suc.IH[of "s1\<lparr>semeru_task_queue := q\<rparr>" e']] by simp
      qed
    qed
  qed
qed

lemma drain_local_queue_quiet: "quiet s (drain_local_queue fuel partially s)"
proof (cases "tq_pop_local (semeru_task_queue s)")
  case None
  then show ?thesis by (simp add: drain_local_queue_def Let_def)
next
  case (Some eq)
  obtain e q where eq: "eq = (e, q)" by (cases eq)
  have "quiet s (drain_local_loop fuel t e (s\<lparr>semeru_task_queue := q\<rparr>))" for t
    by (rule quiet_queue_updI) (rule drain_local_loop_quiet)
  with Some eq show ?thesis by (simp add: drain_local_queue_def Let_def)
qed

lemma drain_local_loop_empties:
  "drain_local_loop k 0 e s = Inr s' \<Longrightarrow>
   has_aborted s' \<or> tq_size (semeru_task_queue s') = 0"
proof (induction k arbitrary: e s)
  case 0 then show ?case by simp
next
  case (Suc k)
  from Suc.prems obtain s1 where
    sc: "scan_task_entry e s = Inr s1" and
    rest: "(if tq_size (semeru_task_queue s1) \<le> 0 \<or> has_aborted s1 then Inr s1
           else case tq_pop_local (semeru_task_queue s1) of None \<Rightarrow> Inr s1
                | Some (e, q) \<Rightarrow> drain_local_loop k 0 e (s1\<lparr>semeru_task_queue := q\<rparr>)) = Inr s'"
    by (auto simp: thenE_def split: sum.splits)
  show ?case
  proof (cases "tq_size (semeru_task_queue s1) \<le> 0 \<or> has_aborted s1")
    case True
    with rest show ?thesis by auto
  next
    case False
    with rest show ?thesis
      using Suc.IH
      by (auto simp: tq_pop_local_def tq_size_def split: option.splits list.splits)
  qed
qed

lemma drain_local_queue_empties:
  "drain_local_queue fuel False s = Inr s' \<Longrightarrow>
   has_aborted s' \<or> tq_size (semeru_task_queue s') = 0"
  using drain_local_loop_empties
  by (auto simp: drain_local_queue_def Let_def tq_pop_local_def tq_size_def
        split: if_splits option.splits list.splits)

lemma push_popped_entries_quiet: "quiet s (push_popped_entries es s)"
proof (induction es arbitrary: s)
  case Nil then show ?case by simp
next
  case (Cons e es)
  show ?case
  proof (cases "e = NullEntry")
    case True then show ?thesis by simp
  next
    case False
    show ?thesis
    proof (cases "tq_push e (semeru_task_queue s)")
      case (Pair ok q)
      show ?thesis
      proof (cases ok)
        case True
        with Pair False show ?thesis
          using quiet_queue_updI[OF Cons.IH[of "s\<lparr>semeru_task_queue := q\<rparr>"]] by simp
      next
        case False
        with Pair \<open>e \<noteq> NullEntry\<close> show ?thesis by simp
      qed
    qed
  qed
qed

lemma mark_stack_pop_quiet:
  "mark_stack_pop s = (res, s1) \<Longrightarrow>
   cm_other_task_queues s1 = cm_other_task_queues s \<and>
   cm_terminator_offered s1 = cm_terminator_offered s \<and>
   step_times_ms s1 = step_times_ms s \<and> calls s1 = calls s \<and>
   start_time_ms s1 = start_time_ms s \<and> env s1 = env s"
  by (auto simp: mark_stack_pop_def split: prod.splits)

lemma get_entries_quiet: "quiet_pair s (get_entries_from_global_stack s)"
proof (cases "mark_stack_pop s")
  case (Pair res s1)
  note q = mark_stack_pop_quiet[OF Pair]
  show ?thesis
  proof (cases res)
    case None
    with Pair q show ?thesis by (simp add: get_entries_from_global_stack_def)
  next
    case (Some buffer)
    have "quiet_pair s1 (thenE (push_popped_entries (take EntriesPerChunk buffer) s1)
            (\<lambda>s2. Inr (True, decrease_limits s2)))"
      by (rule quiet_thenE_pair[OF push_popped_entries_quiet])
         (simp add: decrease_limits_def)
    moreover have "quiet s (Inr s1)" using q by simp
    ultimately have "quiet_pair s (thenE (push_popped_entries (take EntriesPerChunk buffer) s1)
            (\<lambda>s2. Inr (True, decrease_limits s2)))"
      by (rule quiet_pair_trans[rotated])
    with Pair Some show ?thesis by (simp add: get_entries_from_global_stack_def)
  qed
qed

lemma drain_global_partial_loop_quiet: "quiet s (drain_global_partial_loop n fuel t s)"
proof (induction n arbitrary: s)
  case 0 then show ?case by simp
next
  case (Suc n)
  show ?case
  proof (cases "\<not> has_aborted s \<and> t < mark_stack_size s")
    case False then show ?thesis by auto
  next
    case True
    have "quiet s (thenE (get_entries_from_global_stack s) (\<lambda>(got, s1).
          if got then
            thenE (drain_local_queue fuel True s1) (drain_global_partial_loop n fuel t)
          else drain_global_partial_loop n fuel t s1))"
    proof (rule quiet_pair_thenE[OF get_entries_quiet])
      fix x s1
      show "quiet s1 (case (x, s1) of (got, s1) \<Rightarrow>
          if got then
            thenE (drain_local_queue fuel True s1) (drain_global_partial_loop n fuel t)
          else drain_global_partial_loop n fuel t s1)"
        using quiet_thenE[OF drain_local_queue_quiet, where f = "drain_global_partial_loop n fuel t"]
          Suc.IH
        by simp
    qed
    with True show ?thesis by simp
  qed
qed

lemma drain_global_total_loop_quiet: "quiet s (drain_global_total_loop n fuel s)"
proof (induction n arbitrary: s)
  case 0 then show ?case by simp
next
  case (Suc n)
  show ?case
  proof (cases "has_aborted s")
    case True then show ?thesis by simp
  next
    case False
    have "quiet s (thenE (get_entries_from_global_stack s) (\<lambda>(got, s1).
          if got then
            thenE (drain_local_queue fuel False s1) (drain_global_total_loop n fuel)
          else Inr s1))"
    proof (rule quiet_pair_thenE[OF get_entries_quiet])
      fix x s1
      show "quiet s1 (case (x, s1) of (got, s1) \<Rightarrow>
          if got then
            thenE (drain_local_queue fuel False s1) (drain_global_total_loop n fuel)
          else Inr s1)"
        using quiet_thenE[OF drain_local_queue_quiet, where f = "drain_global_total_loop n fuel"]
          Suc.IH
        by simp
    qed
    with False show ?thesis by simp
  qed
qed

lemma drain_global_stack_partial_quiet: "quiet s (drain_global_stack fuel True s)"
  using drain_global_partial_loop_quiet by (simp add: drain_global_stack_def)

lemma drain_global_stack_total_quiet:
  "has_aborted s \<or> tq_size (semeru_task_queue s) = 0 \<Longrightarrow> quiet s (drain_global_stack fuel False s)"
  using drain_global_total_loop_quiet by (auto simp: drain_global_stack_def)

lemma dispatch_reference_quiet: "quiet s (dispatch_reference ref s)"
proof (cases ref)
  case (NarrowOopRef p) then show ?thesis by (simp add: dispatch_reference_def)
next
  case (OopRef p)
  have "quiet s (thenE (deal_with_reference p s) (\<lambda>(res, s1). Inr s1))"
    by (rule quiet_pair_thenE[OF deal_with_reference_quiet]) simp
  with OopRef show ?thesis by (simp add: dispatch_reference_def)
qed

lemma set_target_obj_queue_quietI: "quiet (set_target_obj_queue r q s) m \<Longrightarrow> quiet s m"
  by (cases m) (simp_all add: set_target_obj_queue_def)

lemma trim_overflow_loop_quiet: "quiet s (trim_overflow_loop n r s)"
proof (induction n arbitrary: s)
  case 0 then show ?case by simp
next
  case (Suc n)
  show ?case
  proof (cases "toq_pop_overflow (target_obj_queue (heap_regions s r))")
    case None then show ?thesis by simp
  next
    case (Some rq)
    obtain ref q where rq: "rq = (ref, q)" by (cases rq)
    obtain ok q' where tp: "toq_try_push_to_taskqueue ref q = (ok, q')"
      by (cases "toq_try_push_to_taskqueue ref q")
    have "quiet (set_target_obj_queue r q' s)
            (if ok then trim_overflow_loop n r (set_target_obj_queue r q' s)
             else thenE (dispatch_reference ref (set_target_obj_queue r q' s)) (trim_overflow_loop n r))"
      using Suc.IH quiet_thenE[OF dispatch_reference_quiet, where f = "trim_overflow_loop n r"]
      by simp
    then have "quiet s
            (if ok then trim_overflow_loop n r (set_target_obj_queue r q' s)
             else thenE (dispatch_reference ref (set_target_obj_queue r q' s)) (trim_overflow_loop n r))"
      by (rule set_target_obj_queue_quietI)
    with Some rq tp show ?thesis by (cases ok) simp_all
  qed
qed

lemma trim_local_loop_quiet: "quiet s (trim_local_loop n r t s)"
proof (induction n arbitrary: s)
  case 0 then show ?case by simp
next
  case (Suc n)
  show ?case
  proof (cases "toq_pop_local t (target_obj_queue (heap_regions s r))")
    case None then show ?thesis by simp
  next
    case (Some rq)
    obtain ref q where rq: "rq = (ref, q)" by (cases rq)
    have "quiet (set_target_obj_queue r q s)
            (thenE (dispatch_reference ref (set_target_obj_queue r q s)) (trim_local_loop n r t))"
      using Suc.IH quiet_thenE[OF dispatch_reference_quiet, where f = "trim_local_loop n r t"]
      by simp
    then have "quiet s
            (thenE (dispatch_reference ref (set_target_obj_queue r q s)) (trim_local_loop n r t))"
      by (rule set_target_obj_queue_quietI)
    with Some rq show ?thesis by simp
  qed
qed

lemma trim_to_threshold_quiet: "quiet s (trim_target_object_queue_to_threshold fuel r t s)"
  unfolding trim_target_object_queue_to_threshold_def
  by (rule quiet_thenE[OF trim_overflow_loop_quiet]) (rule trim_local_loop_quiet)

lemma trim_target_object_queue_loop_quiet: "quiet s (trim_target_object_queue_loop n fuel r s)"
proof (induction n arbitrary: s)
  case 0 then show ?case by simp
next
  case (Suc n)
  show ?case
    unfolding trim_target_object_queue_loop.simps
    by (rule quiet_thenE[OF trim_to_threshold_quiet]) (simp add: Suc.IH)
qed

lemma trim_target_object_queue_quiet: "quiet s (trim_target_object_queue fuel r s)"
  by (simp add: trim_target_object_queue_def trim_target_object_queue_loop_quiet)

lemma abort_check_quiet:
  "cm_other_task_queues (abort_marking_if_regular_check_fail s) = cm_other_task_queues s \<and>
   cm_terminator_offered (abort_marking_if_regular_check_fail s) = cm_terminator_offered s \<and>
   step_times_ms (abort_marking_if_regular_check_fail s) = step_times_ms s \<and>
   calls (abort_marking_if_regular_check_fail s) = calls s \<and>
   start_time_ms (abort_marking_if_regular_check_fail s) = start_time_ms s \<and>
   env (abort_marking_if_regular_check_fail s) = env s"
  by (simp add: abort_marking_if_regular_check_fail_def regular_clock_call_def Let_def
        recalculate_limits_def read_vtime_ms_def set_has_aborted_def split: prod.splits bool.splits)

lemma semeru_cm_task_do_addr_quiet: "quiet_pair s (semeru_cm_task_do_addr fuel addr s)"
proof (cases "curr_region s")
  case None then show ?thesis by (simp add: semeru_cm_task_do_addr_def)
next
  case (Some r)
  have "quiet_pair s (thenE (scan_task_entry (ObjEntry addr) s) (\<lambda>s1.
            thenE (drain_local_queue fuel True s1) (\<lambda>s2.
            thenE (drain_global_stack fuel True s2) (\<lambda>s3.
              Inr (\<not> has_aborted s3, s3)))))"
    apply (rule quiet_thenE_pair[OF scan_task_entry_quiet])
    apply (rule quiet_thenE_pair[OF drain_local_queue_quiet])
    apply (rule quiet_thenE_pair[OF drain_global_stack_partial_quiet])
    apply simp
    done
  with Some show ?thesis by (simp add: semeru_cm_task_do_addr_def)
qed

lemma giveup_current_region_quiet: "quiet s (giveup_current_region s)"
  by (simp add: giveup_current_region_def clear_region_fields_def split: option.splits)

lemma scan_current_region_quiet: "quiet s (scan_current_region fuel r s)"
proof (cases "is_humongous (heap_regions s r)")
  case False
  then show ?thesis by (simp add: scan_current_region_def trim_target_object_queue_quiet)
next
  case True
  have first: "quiet s
            (if is_starts_humongous (heap_regions s r) then
               (case task_alive_bitmap s of
                  None \<Rightarrow> Inl WrongAliveBitmap
                | Some b \<Rightarrow>
                    if is_marked (alive_bitmap (heap_regions s b)) (bottom (heap_regions s r)) then
                      thenE (semeru_cm_task_do_addr fuel (bottom (heap_regions s r)) s)
                        (\<lambda>(not_aborted, s1).
                           if not_aborted then Inl HumongousScanError else Inr s1)
                    else Inr s)
             else Inr s)"
  proof -
    have "quiet s (thenE (semeru_cm_task_do_addr fuel (bottom (heap_regions s r)) s)
                        (\<lambda>(not_aborted, s1).
                           if not_aborted then Inl HumongousScanError else Inr s1))"
      by (rule quiet_pair_thenE[OF semeru_cm_task_do_addr_quiet]) simp
    then show ?thesis by (simp split: option.splits)
  qed
  have "quiet s (thenE
            (if is_starts_humongous (heap_regions s r) then
               (case task_alive_bitmap s of
                  None \<Rightarrow> Inl WrongAliveBitmap
                | Some b \<Rightarrow>
                    if is_marked (alive_bitmap (heap_regions s b)) (bottom (heap_regions s r)) then
                      thenE (semeru_cm_task_do_addr fuel (bottom (heap_regions s r)) s)
                        (\<lambda>(not_aborted, s1).
                           if not_aborted then Inl HumongousScanError else Inr s1)
                    else Inr s)
             else Inr s)
            (\<lambda>s1. thenE (giveup_current_region s1) (\<lambda>s2.
               Inr (abort_marking_if_regular_check_fail s2))))"
    apply (rule quiet_thenE[OF first])
    apply (rule quiet_thenE[OF giveup_current_region_quiet])
    apply (simp add: abort_check_quiet)
    done
  with True show ?thesis by (simp add: scan_current_region_def)
qed

lemma claim_region_quiet: "quiet_pair s (claim_region s)"
  by (auto simp: claim_region_def claim_region_from_def Let_def split: option.splits)

lemma claim_loop_quiet: "quiet s (claim_loop n s)"
proof (induction n arbitrary: s)
  case 0 then show ?case by simp
next
  case (Suc n)
  show ?case
  proof (cases "\<not> has_aborted s \<and> \<not> out_of_memory_server_cset s")
    case False then show ?thesis by auto
  next
    case True
    show ?thesis
    proof (cases "task_finger s \<noteq> None \<or> region_limit s \<noteq> None")
      case True
      with \<open>\<not> has_aborted s \<and> \<not> out_of_memory_server_cset s\<close> show ?thesis by auto
    next
      case False
      have "quiet s (thenE (claim_region s) (\<lambda>(claimed_region, s1).
            claim_loop n
              (abort_marking_if_regular_check_fail
                 (case claimed_region of
                    None \<Rightarrow> s1
                  | Some hr \<Rightarrow> setup_for_region hr s1))))"
      proof (rule quiet_pair_thenE[OF claim_region_quiet])
        fix x s1
        let ?s2 = "abort_marking_if_regular_check_fail
                 (case x of None \<Rightarrow> s1 | Some hr \<Rightarrow> setup_for_region hr s1)"
        have "cm_other_task_queues ?s2 = cm_other_task_queues s1 \<and>
              cm_terminator_offered ?s2 = cm_terminator_offered s1 \<and>
              step_times_ms ?s2 = step_times_ms s1 \<and> calls ?s2 = calls s1 \<and>
              start_time_ms ?s2 = start_time_ms s1 \<and> env ?s2 = env s1"
          by (simp add: abort_check_quiet setup_for_region_def split: option.splits)
        then have "quiet s1 (Inr ?s2)" by simp
        then have "quiet s1 (claim_loop n ?s2)"
          using Suc.IH[of ?s2] by (rule quiet_trans)
        then show "quiet s1 (case (x, s1) of (claimed_region, s1) \<Rightarrow>
            claim_loop n
              (abort_marking_if_regular_check_fail
                 (case claimed_region of
                    None \<Rightarrow> s1
                  | Some hr \<Rightarrow> setup_for_region hr s1)))" by simp
      qed
      with True False show ?thesis by simp
    qed
  qed
qed

lemma marking_loop_quiet: "quiet s (marking_loop n fuel s)"
proof (induction n arbitrary: s)
  case 0 then show ?case by simp
next
  case (Suc n)
  have first: "quiet s (case curr_region s of
          None \<Rightarrow> Inr s
        | Some r \<Rightarrow> if has_aborted s then Inr s else scan_current_region fuel r s)"
    by (simp add: scan_current_region_quiet split: option.splits)
  show ?case
    unfolding marking_loop.simps
    apply (rule quiet_thenE[OF first])
    apply (rule quiet_thenE[OF drain_local_queue_quiet])
    apply (rule quiet_thenE[OF drain_global_stack_partial_quiet])
    apply (rule quiet_thenE[OF claim_loop_quiet])
    apply (simp add: Suc.IH)
    done
qed

lemma set_cm_oop_closure_quiet: "quiet s (set_cm_oop_closure b s)"
  by (simp add: set_cm_oop_closure_def)

lemma quiet_not_lqnd: "quiet s m \<Longrightarrow> m \<noteq> Inl LocalQueueNotDrained"
  by (cases m) simp_all

lemma quiet_fields:
  "quiet s m \<Longrightarrow> m = Inr s' \<Longrightarrow>
   cm_other_task_queues s' = cm_other_task_queues s \<and>
   cm_terminator_offered s' = cm_terminator_offered s \<and>
   step_times_ms s' = step_times_ms s \<and> calls s' = calls s \<and>
   start_time_ms s' = start_time_ms s \<and> env s' = env s"
  by simp

lemma total_drain_quiet:
  "quiet s (thenE (drain_local_queue fuel False s) (drain_global_stack fuel' False))"
proof (rule quiet_thenE[OF drain_local_queue_quiet])
  fix s1 assume "drain_local_queue fuel False s = Inr s1"
  then have "has_aborted s1 \<or> tq_size (semeru_task_queue s1) = 0"
    by (rule drain_local_queue_empties)
  then show "quiet s1 (drain_global_stack fuel' False s1)"
    by (rule drain_global_stack_total_quiet)
qed

text \<open>
  C9. A total drain of the local queue that returns leaves the queue empty or the task
  aborted, so a total drain of the global stack that follows it does not fail its
  assertion \<open>partially || _semeru_task_queue->size() == 0\<close>; and
  \<open>do_semeru_marking_step\<close>, where \<open>drain_global_stack(false)\<close> has its only call,
  right after \<open>drain_local_queue(false)\<close>, never fails that assertion.
\<close>

theorem total_drain_finds_local_queue_empty:
  "(drain_local_queue fuel False s = Inr s1 \<longrightarrow>
      (has_aborted s1 \<or> tq_size (semeru_task_queue s1) = 0) \<and>
      drain_global_stack fuel' False s1 \<noteq> Inl LocalQueueNotDrained) \<and>
   do_semeru_marking_step fuel t do_termination is_serial s \<noteq> Inl LocalQueueNotDrained"
proof (intro conjI impI)
  assume c: "drain_local_queue fuel False s = Inr s1"
  then show e: "has_aborted s1 \<or> tq_size (semeru_task_queue s1) = 0"
    by (rule drain_local_queue_empties)
  show "drain_global_stack fuel' False s1 \<noteq> Inl LocalQueueNotDrained"
    using drain_global_stack_total_quiet[OF e] by (rule quiet_not_lqnd)
next
  let ?s2 = "s\<lparr>vtime_reads := Suc (vtime_reads s),
               start_time_ms := elapsed_vtime_ms (env s) (vtime_reads s),
               time_target_ms := t - predictor_get_new_prediction (env s) (marking_step_diffs_ms s),
               has_aborted := False, has_timed_out := False, calls := Suc (calls s)\<rparr>"
  show "do_semeru_marking_step fuel t do_termination is_serial s \<noteq> Inl LocalQueueNotDrained"
  proof
    assume bad: "do_semeru_marking_step fuel t do_termination is_serial s = Inl LocalQueueNotDrained"
    have n1: "set_cm_oop_closure b x \<noteq> Inl LocalQueueNotDrained" for b x
      using set_cm_oop_closure_quiet by (rule quiet_not_lqnd)
    have n2: "marking_loop n fuel x \<noteq> Inl LocalQueueNotDrained" for n x
      using marking_loop_quiet by (rule quiet_not_lqnd)
    have n3: "drain_local_queue fuel False x \<noteq> Inl LocalQueueNotDrained" for x
      using drain_local_queue_quiet by (rule quiet_not_lqnd)
    have n4: "drain_local_queue fuel False x = Inr y \<Longrightarrow>
              drain_global_stack fuel False y \<noteq> Inl LocalQueueNotDrained" for x y
      using drain_global_stack_total_quiet[OF drain_local_queue_empties] by (rule quiet_not_lqnd)
    from bad n1 n2 n3 n4 show False
      by (auto simp: do_semeru_marking_step_def thenE_def Let_def read_vtime_ms_def
            split: if_splits sum.splits prod.splits)
  qed
qed

lemma demo_drain_run:
  "\<exists>s1. drain_local_queue 2 False demo_drain = Inr s1 \<and> \<not> has_aborted s1 \<and>
     tq_elems (semeru_task_queue s1) = [] \<and> alive_bitmap (heap_regions s1 1) = {220} \<and>
     words_scanned s1 = 9"
  by (simp add: demo_drain_def demo_scan_def demo_marker_def demo_region_def thenE_def
        drain_local_queue_def numeral_2_eq_2 tq_size_def tq_pop_local_def scan_task_entry_def
        process_grey_task_entry_true_def
        deal_with_reference_def make_reference_alive_def mark_in_alive_bitmap_def
        is_in_reserved_def obj_allocated_since_next_marking_def is_continues_humongous_def
        par_mark_def add_to_liveness_def update_liveness_def add_live_words_def
        addr_to_region_def heap_region_containing_def upt_rec push_def tq_push_def Let_def)

theorem total_drain_finds_local_queue_empty_witness:
  "\<exists>s1. drain_local_queue 2 False demo_drain = Inr s1 \<and>
     tq_size (semeru_task_queue s1) = 0 \<and>
     drain_global_stack 1 False s1 \<noteq> Inl LocalQueueNotDrained"
proof -
  from demo_drain_run obtain s1 where
    run: "drain_local_queue 2 False demo_drain = Inr s1" and
    q: "tq_elems (semeru_task_queue s1) = []" by blast
  from total_drain_finds_local_queue_empty [of 2 demo_drain s1 1] run
  have "drain_global_stack 1 False s1 \<noteq> Inl LocalQueueNotDrained" by blast
  with run q show ?thesis by (auto simp: tq_size_def)
qed












end
